theory Spec2Isabelle
  imports Main
begin

section \<open>JavaScript strings and byte buffers\<close>

text \<open>
  A JavaScript string is a sequence of UTF-16 code units and \<open>length\<close> counts code
  units; a Node \<open>Buffer\<close> is a sequence of bytes. Both are lists of natural numbers
  here (a code unit is below 65536, a byte below 256). String literals of the source are
  written with \<open>ascii\<close>.
\<close>

type_synonym byte = nat
type_synonym jsstring = "nat list"

definition ascii :: "string \<Rightarrow> jsstring" where
  "ascii s = map of_char s"

subsection \<open>\<open>data.toString()\<close>: UTF-8 decoding of one chunk\<close>

text \<open>
  \<open>Buffer.prototype.toString\<close> decodes the bytes of the chunk as UTF-8, each chunk on
  its own, and replaces every ill-formed sequence by U+FFFD. The decoder is the one of
  the Encoding standard: a lead byte fixes how many continuation bytes are needed and
  the range allowed for the next one.
\<close>

record utf8_state =
  code_point :: nat
  bytes_seen :: nat
  bytes_needed :: nat
  lower_boundary :: nat
  upper_boundary :: nat

definition utf8_init :: utf8_state where
  "utf8_init = \<lparr>code_point = 0, bytes_seen = 0, bytes_needed = 0,
                 lower_boundary = 0x80, upper_boundary = 0xBF\<rparr>"

definition utf8_lead :: "byte \<Rightarrow> nat list \<times> utf8_state" where
  "utf8_lead b =
     (if b \<le> 0x7F then ([b], utf8_init)
      else if 0xC2 \<le> b \<and> b \<le> 0xDF then
        ([], utf8_init\<lparr>code_point := b mod 32, bytes_needed := 1\<rparr>)
      else if 0xE0 \<le> b \<and> b \<le> 0xEF then
        ([], utf8_init\<lparr>code_point := b mod 16, bytes_needed := 2,
                        lower_boundary := (if b = 0xE0 then 0xA0 else 0x80),
                        upper_boundary := (if b = 0xED then 0x9F else 0xBF)\<rparr>)
      else if 0xF0 \<le> b \<and> b \<le> 0xF4 then
        ([], utf8_init\<lparr>code_point := b mod 8, bytes_needed := 3,
                        lower_boundary := (if b = 0xF0 then 0x90 else 0x80),
                        upper_boundary := (if b = 0xF4 then 0x8F else 0xBF)\<rparr>)
      else ([0xFFFD], utf8_init))"

definition utf8_step :: "utf8_state \<Rightarrow> byte \<Rightarrow> nat list \<times> utf8_state" where
  "utf8_step st b =
     (if bytes_needed st = 0 then utf8_lead b
      else if b < lower_boundary st \<or> upper_boundary st < b then
        (0xFFFD # fst (utf8_lead b), snd (utf8_lead b))
      else if Suc (bytes_seen st) = bytes_needed st then
        ([code_point st * 64 + b mod 64], utf8_init)
      else ([], st\<lparr>code_point := code_point st * 64 + b mod 64,
                     bytes_seen := Suc (bytes_seen st),
                     lower_boundary := 0x80, upper_boundary := 0xBF\<rparr>))"

fun utf8_scan :: "utf8_state \<Rightarrow> byte list \<Rightarrow> nat list" where
  "utf8_scan st [] = (if bytes_needed st = 0 then [] else [0xFFFD])"
| "utf8_scan st (b # bs) = fst (utf8_step st b) @ utf8_scan (snd (utf8_step st b)) bs"

definition utf16_units :: "nat \<Rightarrow> jsstring" where
  "utf16_units cp =
     (if cp < 0x10000 then [cp]
      else [0xD800 + (cp - 0x10000) div 1024, 0xDC00 + (cp - 0x10000) mod 1024])"

definition toString :: "byte list \<Rightarrow> jsstring" where
  "toString data = concat (map utf16_units (utf8_scan utf8_init data))"

subsection \<open>\<open>Buffer.byteLength\<close> and writing a string to a stream: UTF-8 encoding\<close>

fun utf8_encode :: "jsstring \<Rightarrow> byte list" where
  "utf8_encode [] = []"
| "utf8_encode [u] =
     (if u < 0x80 then [u]
      else if u < 0x800 then [0xC0 + u div 64, 0x80 + u mod 64]
      else if 0xD800 \<le> u \<and> u < 0xE000 then [0xEF, 0xBF, 0xBD]
      else [0xE0 + u div 4096, 0x80 + (u div 64) mod 64, 0x80 + u mod 64])"
| "utf8_encode (u # v # us) =
     (if u < 0x80 then u # utf8_encode (v # us)
      else if u < 0x800 then [0xC0 + u div 64, 0x80 + u mod 64] @ utf8_encode (v # us)
      else if 0xD800 \<le> u \<and> u < 0xDC00 \<and> 0xDC00 \<le> v \<and> v < 0xE000 then
        (let cp = 0x10000 + (u - 0xD800) * 1024 + (v - 0xDC00)
         in [0xF0 + cp div 262144, 0x80 + (cp div 4096) mod 64,
             0x80 + (cp div 64) mod 64, 0x80 + cp mod 64] @ utf8_encode us)
      else if 0xD800 \<le> u \<and> u < 0xE000 then [0xEF, 0xBF, 0xBD] @ utf8_encode (v # us)
      else [0xE0 + u div 4096, 0x80 + (u div 64) mod 64, 0x80 + u mod 64]
             @ utf8_encode (v # us))"

definition byteLength :: "jsstring \<Rightarrow> nat" where
  "byteLength s = length (utf8_encode s)"

subsection \<open>Numbers in template strings, \<open>parseInt\<close>, \<open>indexOf\<close>, \<open>substring\<close>\<close>

text \<open>
  \<open>decimal\<close> is the string of a non-negative integer as a template literal prints it;
  \<open>parseInt_digits\<close> is \<open>parseInt\<close> on a string of decimal digits. Lengths stay far
  below \<open>2^53\<close>, where JavaScript numbers are exact integers, so both are on \<open>nat\<close>.
\<close>

fun decimal :: "nat \<Rightarrow> jsstring" where
  "decimal n = (if n < 10 then [48 + n] else decimal (n div 10) @ [48 + n mod 10])"

declare decimal.simps [simp del]

definition is_digit :: "nat \<Rightarrow> bool" where
  "is_digit u \<longleftrightarrow> 48 \<le> u \<and> u \<le> 57"

definition parseInt_digits :: "jsstring \<Rightarrow> nat" where
  "parseInt_digits ds = foldl (\<lambda>a d. 10 * a + (d - 48)) 0 ds"

text \<open>\<open>s.indexOf(p)\<close>: the first position where \<open>p\<close> occurs in \<open>s\<close>, or \<open>-1\<close>.\<close>

fun indexOf :: "jsstring \<Rightarrow> jsstring \<Rightarrow> int" where
  "indexOf [] p = (if p = [] then 0 else -1)"
| "indexOf (c # cs) p =
     (if take (length p) (c # cs) = p then 0
      else (let i = indexOf cs p in if i < 0 then -1 else i + 1))"

text \<open>\<open>s.substring(a, b)\<close> clamps both indices to the string and swaps them if needed.\<close>

definition substring :: "jsstring \<Rightarrow> nat \<Rightarrow> nat \<Rightarrow> jsstring" where
  "substring s a b = take (max a b - min a b) (drop (min a b) s)"

definition substring_from :: "jsstring \<Rightarrow> nat \<Rightarrow> jsstring" where
  "substring_from s a = drop a s"

subsection \<open>The regular expression \<open>/Content-Length: (\\d+)\\r\\n\\r\\n/\<close>\<close>

definition CRLFCRLF :: jsstring where
  "CRLFCRLF = [13, 10, 13, 10]"

definition content_length_prefix :: jsstring where
  "content_length_prefix = ascii ''Content-Length: ''"

text \<open>
  \<open>match_here s\<close> is the match of the expression anchored at the start of \<open>s\<close>: the
  literal text, then as many digits as there are (at least one), then the two line ends.
  Taking fewer digits can never help, because the character after the digits taken would
  be a digit and not a carriage return. The result is \<open>parseInt\<close> of the captured group.
\<close>

definition match_here :: "jsstring \<Rightarrow> nat option" where
  "match_here s =
     (if take 16 s = content_length_prefix then
        (let digits = takeWhile is_digit (drop 16 s);
             rest = dropWhile is_digit (drop 16 s)
         in if digits \<noteq> [] \<and> take 4 rest = CRLFCRLF then Some (parseInt_digits digits)
            else None)
      else None)"

text \<open>\<open>s.match(re)\<close> without the \<open>g\<close> flag: the leftmost position with a match.\<close>

fun content_length_match :: "jsstring \<Rightarrow> nat option" where
  "content_length_match [] = None"
| "content_length_match (c # cs) =
     (case match_here (c # cs) of
        Some n \<Rightarrow> Some n
      | None \<Rightarrow> content_length_match cs)"

section \<open>JSON values\<close>

text \<open>
  The values \<open>JSON.parse\<close> returns. Request ids are integers, and numbers are modelled
  as integers. \<open>JSON.parse\<close> and \<open>JSON.stringify\<close> themselves are parameters of the
  functions that call them: \<open>parse s = None\<close> means that \<open>JSON.parse(s)\<close> throws.
\<close>

datatype json =
    JNull
  | JBool bool
  | JNum int
  | JStr jsstring
  | JArr "json list"
  | JObj "(jsstring \<times> json) list"

type_synonym parser = "jsstring \<Rightarrow> json option"
type_synonym stringifier = "json \<Rightarrow> jsstring"

text \<open>
  \<open>v.name\<close> for a value that is not \<open>null\<close>: an own property of an object, and
  \<open>undefined\<close> (\<open>None\<close>) otherwise. On \<open>null\<close> the access throws; callers check that
  first.
\<close>

fun get_field :: "json \<Rightarrow> jsstring \<Rightarrow> json option" where
  "get_field (JObj kvs) name = map_of kvs name"
| "get_field _ name = None"

fun truthy :: "json option \<Rightarrow> bool" where
  "truthy None = False"
| "truthy (Some JNull) = False"
| "truthy (Some (JBool b)) = b"
| "truthy (Some (JNum n)) = (n \<noteq> 0)"
| "truthy (Some (JStr s)) = (s \<noteq> [])"
| "truthy (Some (JArr _)) = True"
| "truthy (Some (JObj _)) = True"

datatype js_error =
    SyntaxError
  | TypeError
  | Error "json option"
  | StreamError jsstring

datatype promise = Pending | Fulfilled "json option" | Rejected js_error

text \<open>What \<open>console.error\<close> was called with.\<close>

datatype log_line = ErrorParsingMessage js_error | FailedToStart jsstring

section \<open>Main process: the registry of language servers\<close>

record lsp_process =
  stdin :: "jsstring list"
  killed :: bool

record server_data =
  process :: lsp_process
  language :: jsstring
  messageBuffer :: jsstring
  pendingRequests :: "nat \<rightharpoonup> nat"
  requestIdCounter :: nat

text \<open>
  \<open>lspServers\<close> maps a server id to the address of its \<open>serverData\<close> object; the
  objects live in \<open>objects\<close> and stay there when the registry entry is deleted, because
  the callbacks of the process and of the timers hold the object itself. A promise made
  by \<open>send-lsp-request\<close> is an entry of \<open>promises\<close>; the pending-request map stores the
  address of the promise whose \<open>resolve\<close> and \<open>reject\<close> it holds.
\<close>

record main_state =
  lspServers :: "jsstring \<rightharpoonup> nat"
  lspServerIdCounter :: nat
  objects :: "nat \<Rightarrow> server_data"
  promises :: "nat \<rightharpoonup> promise"
  promiseCount :: nat
  mainWindowAlive :: bool
  diagnosticsSent :: "(jsstring \<times> json option) list"
  consoleErrors :: "log_line list"

definition update_object :: "nat \<Rightarrow> (server_data \<Rightarrow> server_data) \<Rightarrow> main_state \<Rightarrow> main_state" where
  "update_object r f w = w\<lparr>objects := (objects w)(r := f (objects w r))\<rparr>"

definition console_error :: "log_line \<Rightarrow> main_state \<Rightarrow> main_state" where
  "console_error e w = w\<lparr>consoleErrors := consoleErrors w @ [e]\<rparr>"

text \<open>Settling a promise that is already settled does nothing.\<close>

definition settle :: "nat \<Rightarrow> promise \<Rightarrow> main_state \<Rightarrow> main_state" where
  "settle h outcome w =
     (if promises w h = Some Pending then w\<lparr>promises := (promises w)(h \<mapsto> outcome)\<rparr> else w)"

definition resolve :: "nat \<Rightarrow> json option \<Rightarrow> main_state \<Rightarrow> main_state" where
  "resolve h v w = settle h (Fulfilled v) w"

definition reject :: "nat \<Rightarrow> js_error \<Rightarrow> main_state \<Rightarrow> main_state" where
  "reject h e w = settle h (Rejected e) w"

text \<open>
  The keys of \<open>pendingRequests\<close> are the numbers \<open>++requestIdCounter\<close> produced. A
  \<open>Map\<close> finds a key only for a value equal to it: a number, never a string or \<open>null\<close>.
\<close>

fun pending_key :: "json \<Rightarrow> nat option" where
  "pending_key (JNum n) = (if 0 \<le> n then Some (nat n) else None)"
| "pending_key _ = None"

definition pending_get :: "(nat \<rightharpoonup> nat) \<Rightarrow> json \<Rightarrow> nat option" where
  "pending_get m v = (case pending_key v of None \<Rightarrow> None | Some k \<Rightarrow> m k)"

definition pending_delete :: "(nat \<rightharpoonup> nat) \<Rightarrow> json \<Rightarrow> (nat \<rightharpoonup> nat)" where
  "pending_delete m v = (case pending_key v of None \<Rightarrow> m | Some k \<Rightarrow> m(k := None))"

subsection \<open>\<open>handleLSPMessage\<close>\<close>

definition publishDiagnostics :: jsstring where
  "publishDiagnostics = ascii ''textDocument/publishDiagnostics''"

text \<open>
  The result is \<open>Inl\<close> when the function throws: reading \<open>message.id\<close> of \<open>null\<close> is
  a \<open>TypeError\<close>, raised before anything is changed.
\<close>

text \<open>\<open>message.error.message\<close>, read only when \<open>message.error\<close> is truthy.\<close>

definition error_message :: "json option \<Rightarrow> json option" where
  "error_message err = (case err of None \<Rightarrow> None | Some e \<Rightarrow> get_field e (ascii ''message''))"

definition handle_response :: "nat \<Rightarrow> json \<Rightarrow> main_state \<Rightarrow> main_state" where
  "handle_response r message w =
     (case get_field message (ascii ''id'') of
        None \<Rightarrow> w
      | Some mid \<Rightarrow>
          (case pending_get (pendingRequests (objects w r)) mid of
             None \<Rightarrow> w
           | Some pending \<Rightarrow>
               (let w' = update_object r
                           (\<lambda>sd. sd\<lparr>pendingRequests := pending_delete (pendingRequests sd) mid\<rparr>) w
                in if truthy (get_field message (ascii ''error''))
                   then reject pending (Error (error_message (get_field message (ascii ''error'')))) w'
                   else resolve pending (get_field message (ascii ''result'')) w')))"

definition handle_notification :: "jsstring \<Rightarrow> json \<Rightarrow> main_state \<Rightarrow> main_state" where
  "handle_notification serverId message w =
     (if truthy (get_field message (ascii ''method'')) then
        (if get_field message (ascii ''method'') = Some (JStr publishDiagnostics) then
           (if mainWindowAlive w
            then w\<lparr>diagnosticsSent :=
                     diagnosticsSent w @ [(serverId, get_field message (ascii ''params''))]\<rparr>
            else w)
         else w)
      else w)"

definition handleLSPMessage :: "jsstring \<Rightarrow> json \<Rightarrow> main_state \<Rightarrow> js_error + main_state" where
  "handleLSPMessage serverId message w =
     (case lspServers w serverId of
        None \<Rightarrow> Inr w
      | Some r \<Rightarrow>
          if message = JNull then Inl TypeError
          else Inr (handle_notification serverId message (handle_response r message w)))"

subsection \<open>The \<open>data\<close> handler of the server's standard output\<close>

text \<open>
  The \<open>try\<close> block of the loop: a message that does not parse, or a handler that throws,
  is logged with \<open>console.error\<close> and the loop goes on. \<open>receive_message\<close> is the part
  of the block after a successful \<open>JSON.parse\<close>.
\<close>

definition receive_message :: "jsstring \<Rightarrow> json \<Rightarrow> main_state \<Rightarrow> main_state" where
  "receive_message serverId message w =
     (case handleLSPMessage serverId message w of
        Inl e \<Rightarrow> console_error (ErrorParsingMessage e) w
      | Inr w' \<Rightarrow> w')"

definition deliver :: "parser \<Rightarrow> jsstring \<Rightarrow> jsstring \<Rightarrow> main_state \<Rightarrow> main_state" where
  "deliver parse serverId messageContent w =
     (case parse messageContent of
        None \<Rightarrow> console_error (ErrorParsingMessage SyntaxError) w
      | Some message \<Rightarrow> receive_message serverId message w)"

text \<open>The handlers leave the receive buffers alone; the loop below relies on it.\<close>

lemma indexOf_lower: "- 1 \<le> indexOf s p"
  by (induction s) (auto simp: Let_def)

lemma settle_objects: "objects (settle h outcome w) = objects w"
  by (simp add: settle_def)

lemma handle_response_buffer:
  "messageBuffer (objects (handle_response q message w) r) = messageBuffer (objects w r)"
  by (simp add: handle_response_def update_object_def resolve_def reject_def settle_objects
                Let_def
           split: option.splits)

lemma handle_notification_objects: "objects (handle_notification serverId message w) = objects w"
  by (simp add: handle_notification_def)

lemma deliver_buffer:
  "messageBuffer (objects (deliver parse serverId content w) r) = messageBuffer (objects w r)"
  by (simp add: deliver_def receive_message_def handleLSPMessage_def console_error_def
                handle_response_buffer
                handle_notification_objects
           split: option.splits sum.splits)

text \<open>
  The \<open>while\<close> loop. Each round reads \<open>serverData.messageBuffer\<close> again; a round that
  extracts a message shortens the buffer by at least three characters, which is why the
  loop ends.
\<close>

definition set_buffer :: "nat \<Rightarrow> jsstring \<Rightarrow> main_state \<Rightarrow> main_state" where
  "set_buffer r b w = update_object r (\<lambda>sd. sd\<lparr>messageBuffer := b\<rparr>) w"

function process_messages :: "parser \<Rightarrow> nat \<Rightarrow> jsstring \<Rightarrow> main_state \<Rightarrow> main_state" where
  "process_messages parse r serverId w =
     (case content_length_match (messageBuffer (objects w r)) of
        None \<Rightarrow> w
      | Some contentLength \<Rightarrow>
          (let buffer = messageBuffer (objects w r);
               messageStart = nat (indexOf buffer CRLFCRLF + 4)
           in if length buffer \<ge> messageStart + contentLength then
                process_messages parse r serverId
                  (deliver parse serverId
                     (substring buffer messageStart (messageStart + contentLength))
                     (set_buffer r (substring_from buffer (messageStart + contentLength)) w))
              else w))"
  by pat_completeness auto

termination
proof (relation "measure (\<lambda>(parse, r, serverId, w). length (messageBuffer (objects w r)))")
  show "wf (measure (\<lambda>(parse, r, serverId, w). length (messageBuffer (objects w r))))"
    by simp
next
  fix parse :: parser and r :: nat and serverId :: jsstring and w :: main_state
    and contentLength buffer messageStart
  assume b: "buffer = messageBuffer (objects w r)"
    and s: "messageStart = nat (indexOf buffer CRLFCRLF + 4)"
    and l: "messageStart + contentLength \<le> length buffer"
  have "3 \<le> messageStart"
    using indexOf_lower [of buffer CRLFCRLF] s by simp
  with l have "length (drop (messageStart + contentLength) buffer) < length buffer"
    by simp
  then show "((parse, r, serverId, deliver parse serverId
            (substring buffer messageStart (messageStart + contentLength))
            (set_buffer r (substring_from buffer (messageStart + contentLength)) w)),
         (parse, r, serverId, w))
        \<in> measure (\<lambda>(parse, r, serverId, w). length (messageBuffer (objects w r)))"
    by (simp add: deliver_buffer set_buffer_def update_object_def substring_from_def b)
qed

declare process_messages.simps [simp del]


definition stdout_on_data :: "parser \<Rightarrow> nat \<Rightarrow> jsstring \<Rightarrow> byte list \<Rightarrow> main_state \<Rightarrow> main_state" where
  "stdout_on_data parse r serverId data w =
     process_messages parse r serverId
       (update_object r (\<lambda>sd. sd\<lparr>messageBuffer := messageBuffer sd @ toString data\<rparr>) w)"

subsection \<open>Starting and stopping a server\<close>

definition initial_main_state :: main_state where
  "initial_main_state =
     \<lparr>lspServers = Map.empty, lspServerIdCounter = 0,
      objects = (\<lambda>_. \<lparr>process = \<lparr>stdin = [], killed = False\<rparr>, language = [],
                       messageBuffer = [], pendingRequests = Map.empty,
                       requestIdCounter = 0\<rparr>),
      promises = Map.empty, promiseCount = 0, mainWindowAlive = True,
      diagnosticsSent = [], consoleErrors = []\<rparr>"

definition server_id_of :: "jsstring \<Rightarrow> nat \<Rightarrow> jsstring" where
  "server_id_of lang n = ascii ''lsp-'' @ lang @ ascii ''-'' @ decimal n"

text \<open>
  \<open>start-lsp-server\<close>; \<open>spawned\<close> tells whether \<open>spawn\<close> gave a process with a pid.
  The new \<open>serverData\<close> object gets the value of the id counter as its address.
\<close>

definition start_lsp_server :: "jsstring \<Rightarrow> bool \<Rightarrow> main_state \<Rightarrow> jsstring option \<times> main_state" where
  "start_lsp_server lang spawned w =
     (let n = Suc (lspServerIdCounter w);
          serverId = server_id_of lang n;
          w1 = w\<lparr>lspServerIdCounter := n\<rparr>
      in if \<not> spawned then (None, console_error (FailedToStart serverId) w1)
         else (Some serverId,
               w1\<lparr>objects := (objects w1)
                        (n := \<lparr>process = \<lparr>stdin = [], killed = False\<rparr>, language = lang,
                               messageBuffer = [], pendingRequests = Map.empty,
                               requestIdCounter = 0\<rparr>),
                   lspServers := (lspServers w1)(serverId \<mapsto> n)\<rparr>))"



subsection \<open>Requests and notifications to the server\<close>

text \<open>The template literal of both senders: the header counts the bytes of the content.\<close>

definition frame_message :: "jsstring \<Rightarrow> jsstring" where
  "frame_message content =
     content_length_prefix @ decimal (byteLength content) @ CRLFCRLF @ content"

definition stdin_write :: "nat \<Rightarrow> jsstring \<Rightarrow> main_state \<Rightarrow> main_state" where
  "stdin_write r text w =
     update_object r (\<lambda>sd. sd\<lparr>process := (process sd)\<lparr>stdin := stdin (process sd) @ [text]\<rparr>\<rparr>) w"

definition not_found :: "jsstring \<Rightarrow> js_error" where
  "not_found serverId = Error (Some (JStr (ascii ''LSP server '' @ serverId @ ascii '' not found'')))"

text \<open>
  An object literal whose \<open>params\<close> is \<open>undefined\<close> is serialised without that
  property, so the request object is built without it.
\<close>

definition rpc_object :: "(jsstring \<times> json) list \<Rightarrow> json option \<Rightarrow> json" where
  "rpc_object props params =
     JObj (props @ (case params of None \<Rightarrow> [] | Some p \<Rightarrow> [(ascii ''params'', p)]))"

text \<open>
  \<open>send-lsp-request\<close>. It throws when the server is not registered. Otherwise it
  returns the request id and the address of the new promise, which are what the
  callbacks of the write and of the timer hold, next to the \<open>serverData\<close> object.
\<close>

definition send_lsp_request ::
    "stringifier \<Rightarrow> jsstring \<Rightarrow> jsstring \<Rightarrow> json option \<Rightarrow> main_state
      \<Rightarrow> js_error + (nat \<times> nat \<times> nat \<times> main_state)" where
  "send_lsp_request stringify serverId method params w =
     (case lspServers w serverId of
        None \<Rightarrow> Inl (not_found serverId)
      | Some r \<Rightarrow>
          (let requestId = Suc (requestIdCounter (objects w r));
               w1 = update_object r (\<lambda>sd. sd\<lparr>requestIdCounter := requestId\<rparr>) w;
               request = rpc_object [(ascii ''jsonrpc'', JStr (ascii ''2.0'')),
                                     (ascii ''id'', JNum (int requestId)),
                                     (ascii ''method'', JStr method)] params;
               requestMessage = frame_message (stringify request);
               h = promiseCount w1;
               w2 = w1\<lparr>promises := (promises w1)(h \<mapsto> Pending), promiseCount := Suc h\<rparr>;
               w3 = update_object r
                      (\<lambda>sd. sd\<lparr>pendingRequests := (pendingRequests sd)(requestId \<mapsto> h)\<rparr>) w2
           in Inr (r, requestId, h, stdin_write r requestMessage w3)))"

text \<open>The callback of \<open>stdin.write\<close>, called with the write's error if it had one.\<close>

definition write_callback :: "nat \<Rightarrow> nat \<Rightarrow> nat \<Rightarrow> js_error option \<Rightarrow> main_state \<Rightarrow> main_state" where
  "write_callback r requestId h err w =
     (case err of
        None \<Rightarrow> w
      | Some e \<Rightarrow>
          reject h e
            (update_object r
               (\<lambda>sd. sd\<lparr>pendingRequests := (pendingRequests sd)(requestId := None)\<rparr>) w))"

definition request_timeout :: js_error where
  "request_timeout = Error (Some (JStr (ascii ''LSP request timeout'')))"

text \<open>The callback of \<open>setTimeout\<close>, run once, 30000 ms after the request was sent.\<close>

definition timeout_callback :: "nat \<Rightarrow> nat \<Rightarrow> nat \<Rightarrow> main_state \<Rightarrow> main_state" where
  "timeout_callback r requestId h w =
     (if pendingRequests (objects w r) requestId \<noteq> None then
        reject h request_timeout
          (update_object r
             (\<lambda>sd. sd\<lparr>pendingRequests := (pendingRequests sd)(requestId := None)\<rparr>) w)
      else w)"

definition send_lsp_notification ::
    "stringifier \<Rightarrow> jsstring \<Rightarrow> jsstring \<Rightarrow> json option \<Rightarrow> main_state \<Rightarrow> js_error + main_state" where
  "send_lsp_notification stringify serverId method params w =
     (case lspServers w serverId of
        None \<Rightarrow> Inl (not_found serverId)
      | Some r \<Rightarrow>
          (let notification = rpc_object [(ascii ''jsonrpc'', JStr (ascii ''2.0'')),
                                          (ascii ''method'', JStr method)] params
           in Inr (stdin_write r (frame_message (stringify notification)) w)))"

section \<open>Renderer: document versions (\<open>lsp.js\<close>)\<close>

record lsp_config =
  config_name :: jsstring
  command :: jsstring
  fileExtensions :: "jsstring list"
  languageId :: jsstring

record language_server =
  server_id :: jsstring
  config :: lsp_config
  capabilities :: "json option"

text \<open>
  \<open>languageServers\<close> is a \<open>Map\<close> that is iterated, so it is a list of entries in
  insertion order. \<open>notifications\<close> are the calls of
  \<open>window.api.sendLSPNotification(serverId, method, params)\<close>, oldest first.
\<close>

record renderer_state =
  languageServers :: "(jsstring \<times> language_server) list"
  documentVersions :: "jsstring \<rightharpoonup> nat"
  notifications :: "(jsstring \<times> jsstring \<times> json) list"

definition endsWith :: "jsstring \<Rightarrow> jsstring \<Rightarrow> bool" where
  "endsWith s ext \<longleftrightarrow> length ext \<le> length s \<and> drop (length s - length ext) s = ext"

definition getServerForFile :: "renderer_state \<Rightarrow> jsstring \<Rightarrow> language_server option" where
  "getServerForFile st filePath =
     (if filePath = [] then None
      else (case filter (\<lambda>(lang, server). list_ex (endsWith filePath) (fileExtensions (config server)))
                        (languageServers st) of
              [] \<Rightarrow> None
            | (lang, server) # _ \<Rightarrow> Some server))"

definition file_uri :: "jsstring \<Rightarrow> json" where
  "file_uri filePath = JStr (ascii ''file://'' @ filePath)"

definition sendLSPNotification :: "jsstring \<Rightarrow> jsstring \<Rightarrow> json \<Rightarrow> renderer_state \<Rightarrow> renderer_state" where
  "sendLSPNotification serverId method params st =
     st\<lparr>notifications := notifications st @ [(serverId, method, params)]\<rparr>"

definition didOpen_params :: "jsstring \<Rightarrow> jsstring \<Rightarrow> nat \<Rightarrow> jsstring \<Rightarrow> json" where
  "didOpen_params filePath langId version content =
     JObj [(ascii ''textDocument'',
            JObj [(ascii ''uri'', file_uri filePath),
                  (ascii ''languageId'', JStr langId),
                  (ascii ''version'', JNum (int version)),
                  (ascii ''text'', JStr content)])]"

definition didOpenDocument :: "jsstring \<Rightarrow> jsstring \<Rightarrow> jsstring \<Rightarrow> renderer_state \<Rightarrow> renderer_state" where
  "didOpenDocument filePath langId content st =
     (case getServerForFile st filePath of
        None \<Rightarrow> st
      | Some server \<Rightarrow>
          (let version = 1;
               st1 = st\<lparr>documentVersions := (documentVersions st)(filePath \<mapsto> version)\<rparr>
           in sendLSPNotification (server_id server) (ascii ''textDocument/didOpen'')
                (didOpen_params filePath langId version content) st1))"

text \<open>\<open>documentVersions.get(filePath) || 1\<close>: a missing entry, or the number 0, gives 1.\<close>

definition version_or_1 :: "nat option \<Rightarrow> nat" where
  "version_or_1 v = (case v of None \<Rightarrow> 1 | Some n \<Rightarrow> if n = 0 then 1 else n)"

definition didChange_params :: "jsstring \<Rightarrow> nat \<Rightarrow> jsstring \<Rightarrow> json" where
  "didChange_params filePath version content =
     JObj [(ascii ''textDocument'',
            JObj [(ascii ''uri'', file_uri filePath),
                  (ascii ''version'', JNum (int version))]),
           (ascii ''contentChanges'', JArr [JObj [(ascii ''text'', JStr content)]])]"

definition didChangeDocument :: "jsstring \<Rightarrow> jsstring \<Rightarrow> renderer_state \<Rightarrow> renderer_state" where
  "didChangeDocument filePath content st =
     (case getServerForFile st filePath of
        None \<Rightarrow> st
      | Some server \<Rightarrow>
          (let version = Suc (version_or_1 (documentVersions st filePath));
               st1 = st\<lparr>documentVersions := (documentVersions st)(filePath \<mapsto> version)\<rparr>
           in sendLSPNotification (server_id server) (ascii ''textDocument/didChange'')
                (didChange_params filePath version content) st1))"

definition didSaveDocument :: "jsstring \<Rightarrow> jsstring \<Rightarrow> renderer_state \<Rightarrow> renderer_state" where
  "didSaveDocument filePath content st =
     (case getServerForFile st filePath of
        None \<Rightarrow> st
      | Some server \<Rightarrow>
          sendLSPNotification (server_id server) (ascii ''textDocument/didSave'')
            (JObj [(ascii ''textDocument'', JObj [(ascii ''uri'', file_uri filePath)]),
                   (ascii ''text'', JStr content)]) st)"

definition didCloseDocument :: "jsstring \<Rightarrow> renderer_state \<Rightarrow> renderer_state" where
  "didCloseDocument filePath st =
     (case getServerForFile st filePath of
        None \<Rightarrow> st
      | Some server \<Rightarrow>
          sendLSPNotification (server_id server) (ascii ''textDocument/didClose'')
            (JObj [(ascii ''textDocument'', JObj [(ascii ''uri'', file_uri filePath)])])
            (st\<lparr>documentVersions := (documentVersions st)(filePath := None)\<rparr>))"


subsection \<open>A renderer with one server, for the examples\<close>

definition rust_server :: language_server where
  "rust_server = \<lparr>server_id = ascii ''lsp-rust-1'',
      config = \<lparr>config_name = ascii ''rust-analyzer'', command = ascii ''rust-analyzer'',
                fileExtensions = [ascii ''.rs''], languageId = ascii ''rust''\<rparr>,
      capabilities = None\<rparr>"

definition rust_renderer :: renderer_state where
  "rust_renderer = \<lparr>languageServers = [(ascii ''rust'', rust_server)],
      documentVersions = Map.empty, notifications = []\<rparr>"


subsection \<open>Sequences of requests and responses, and a main process with one server\<close>

fun send_requests ::
    "stringifier \<Rightarrow> jsstring \<Rightarrow> (jsstring \<times> json option) list \<Rightarrow> main_state
      \<Rightarrow> js_error + ((nat \<times> nat) list \<times> main_state)" where
  "send_requests stringify serverId [] w = Inr ([], w)"
| "send_requests stringify serverId ((method, params) # reqs) w =
     (case send_lsp_request stringify serverId method params w of
        Inl e \<Rightarrow> Inl e
      | Inr (r, requestId, h, w1) \<Rightarrow>
          (case send_requests stringify serverId reqs w1 of
             Inl e \<Rightarrow> Inl e
           | Inr (calls, w2) \<Rightarrow> Inr ((requestId, h) # calls, w2)))"

definition rpc_response :: "nat \<Rightarrow> json \<Rightarrow> json" where
  "rpc_response requestId result =
     JObj [(ascii ''jsonrpc'', JStr (ascii ''2.0'')),
           (ascii ''id'', JNum (int requestId)),
           (ascii ''result'', result)]"

definition receive_responses :: "jsstring \<Rightarrow> (nat \<times> json) list \<Rightarrow> main_state \<Rightarrow> main_state" where
  "receive_responses serverId rs w =
     fold (\<lambda>(requestId, result). receive_message serverId (rpc_response requestId result)) rs w"

definition rust_id :: jsstring where
  "rust_id = ascii ''lsp-rust-1''"

definition rust_main :: main_state where
  "rust_main = snd (start_lsp_server (ascii ''rust'') True initial_main_state)"

definition plain_stringify :: stringifier where
  "plain_stringify j = ascii ''{}''"

definition one_pending :: main_state where
  "one_pending =
     (case send_lsp_request plain_stringify rust_id (ascii ''initialize'') None rust_main of
        Inl e \<Rightarrow> rust_main
      | Inr (r, requestId, h, w) \<Rightarrow> w)"

definition configuration_request :: json where
  "configuration_request =
     JObj [(ascii ''jsonrpc'', JStr (ascii ''2.0'')),
           (ascii ''id'', JNum 1),
           (ascii ''method'', JStr (ascii ''workspace/configuration'')),
           (ascii ''params'', JObj [(ascii ''items'', JArr [])])]"

subsection \<open>Framed streams, and the messages of the examples\<close>

text \<open>
  \<open>framed headers payload\<close> is a message on the wire whose header block is the given
  extra header lines followed by the \<open>Content-Length\<close> line; \<open>stream\<close> is a sequence
  of such messages.
\<close>

definition accented_response :: jsstring where
  \<open>accented_response = ascii ''{"jsonrpc":"2.0","id":1,"result":"'' @ [233] @ ascii ''"}''\<close>

definition framed :: "jsstring list \<Rightarrow> jsstring \<Rightarrow> jsstring" where
  "framed headers payload = concat (map (\<lambda>h. h @ [13, 10]) headers) @ frame_message payload"

definition valid_frame :: "jsstring list \<times> jsstring \<Rightarrow> bool" where
  "valid_frame f \<longleftrightarrow> (\<forall>h \<in> set (fst f). h \<noteq> [] \<and> 13 \<notin> set h) \<and> (\<forall>u \<in> set (snd f). u < 128)"

definition header_lines :: "jsstring list \<Rightarrow> jsstring" where
  "header_lines hs = concat (map (\<lambda>h. h @ [13, 10]) hs)"

definition frame_header :: "jsstring list \<Rightarrow> nat \<Rightarrow> jsstring" where
  "frame_header hs n = header_lines hs @ content_length_prefix @ decimal n @ CRLFCRLF"

definition stream :: "(jsstring list \<times> jsstring) list \<Rightarrow> jsstring" where
  "stream fs = concat (map (\<lambda>f. framed (fst f) (snd f)) fs)"

definition response_text :: jsstring where
  \<open>response_text = ascii ''{"jsonrpc":"2.0","id":1,"result":7}''\<close>

definition sample_parse :: parser where
  "sample_parse s =
     (if s = response_text then Some (rpc_response 1 (JNum 7))
      else if s = ascii ''{}'' then Some (JObj [])
      else None)"

definition content_type_line :: jsstring where
  "content_type_line = ascii ''Content-Type: application/json''"

definition typed_frame :: jsstring where
  "typed_frame =
     ascii ''Content-Length: 35'' @ [13, 10] @ content_type_line @ CRLFCRLF @ response_text"

definition two_frames :: "(jsstring list \<times> jsstring) list" where
  "two_frames = [([], ascii ''{}''), ([content_type_line], response_text)]"

definition byte_by_byte :: "byte list \<Rightarrow> byte list list" where
  "byte_by_byte data = map (\<lambda>b. [b]) data"




definition accented_broken_text :: jsstring where
  "accented_broken_text = ascii ''{oops'' @ [233]"

section \<open>Document versions\<close>

lemma getServerForFile_cong:
  "languageServers st' = languageServers st \<Longrightarrow> getServerForFile st' fp = getServerForFile st fp"
  by (simp add: getServerForFile_def)

lemma languageServers_didOpen [simp]:
  "languageServers (didOpenDocument fp l c st) = languageServers st"
  by (simp add: didOpenDocument_def sendLSPNotification_def split: option.splits)

lemma languageServers_didChange [simp]:
  "languageServers (didChangeDocument fp c st) = languageServers st"
  by (simp add: didChangeDocument_def sendLSPNotification_def split: option.splits)

lemma languageServers_didClose [simp]:
  "languageServers (didCloseDocument fp st) = languageServers st"
  by (simp add: didCloseDocument_def sendLSPNotification_def split: option.splits)

lemma rust_server_for_a_rs: "getServerForFile rust_renderer (ascii ''a.rs'') = Some rust_server"
  by (simp add: getServerForFile_def rust_renderer_def rust_server_def endsWith_def ascii_def)

lemma didOpen_effect:
  assumes "getServerForFile st fp = Some server"
  shows "didOpenDocument fp l c st =
           st\<lparr>documentVersions := (documentVersions st)(fp \<mapsto> 1),
              notifications := notifications st @
                [(server_id server, ascii ''textDocument/didOpen'', didOpen_params fp l 1 c)]\<rparr>"
  using assms by (simp add: didOpenDocument_def sendLSPNotification_def)

lemma didChange_effect:
  assumes "getServerForFile st fp = Some server"
  shows "didChangeDocument fp c st =
           st\<lparr>documentVersions := (documentVersions st)(fp \<mapsto> Suc (version_or_1 (documentVersions st fp))),
              notifications := notifications st @
                [(server_id server, ascii ''textDocument/didChange'',
                  didChange_params fp (Suc (version_or_1 (documentVersions st fp))) c)]\<rparr>"
  using assms by (simp add: didChangeDocument_def sendLSPNotification_def)

lemma didClose_effect:
  assumes "getServerForFile st fp = Some server"
  shows "didCloseDocument fp st =
           st\<lparr>documentVersions := (documentVersions st)(fp := None),
              notifications := notifications st @
                [(server_id server, ascii ''textDocument/didClose'',
                  JObj [(ascii ''textDocument'', JObj [(ascii ''uri'', file_uri fp)])])]\<rparr>"
  using assms by (simp add: didCloseDocument_def sendLSPNotification_def)


lemma version_or_1_Suc [simp]: "version_or_1 (Some (Suc n)) = Suc n"
  by (simp add: version_or_1_def)

lemma didChange_known_version:
  assumes "getServerForFile st fp = Some server" and "documentVersions st fp = Some v" and "0 < v"
  shows "notifications (didChangeDocument fp c st) = notifications st @
           [(server_id server, ascii ''textDocument/didChange'', didChange_params fp (Suc v) c)]"
    and "documentVersions (didChangeDocument fp c st) fp = Some (Suc v)"
  using assms by (simp_all add: didChange_effect version_or_1_def)

text \<open>
  Claim C6. While a server is registered for the file: \<open>didOpen\<close> records version 1
  and sends a notification whose \<open>textDocument.version\<close> is 1; three \<open>didChange\<close> calls
  after it record the versions 2, 3 and 4 and send, in this order, notifications whose
  \<open>textDocument.version\<close> is 2, 3 and 4, each with the full new text; \<open>didClose\<close>
  removes the recorded version, and a \<open>didOpen\<close> after it records version 1 and sends
  version 1 again. The notifications are written out as the objects the source builds.
  (\<open>st'\<close> is any state of the session at the time of the close.)
\<close>

theorem open_change_close_versions:
  assumes server: "getServerForFile st fp = Some server"
    and server': "getServerForFile st' fp = Some server"
  shows "notifications (didOpenDocument fp l c0 st) = notifications st @
           [(server_id server, ascii ''textDocument/didOpen'',
             JObj [(ascii ''textDocument'',
                    JObj [(ascii ''uri'', JStr (ascii ''file://'' @ fp)),
                          (ascii ''languageId'', JStr l),
                          (ascii ''version'', JNum 1),
                          (ascii ''text'', JStr c0)])])]
       \<and> documentVersions (didOpenDocument fp l c0 st) fp = Some 1
       \<and> notifications (didChangeDocument fp c3 (didChangeDocument fp c2
            (didChangeDocument fp c1 (didOpenDocument fp l c0 st)))) =
          notifications (didOpenDocument fp l c0 st) @
           [(server_id server, ascii ''textDocument/didChange'',
             JObj [(ascii ''textDocument'',
                    JObj [(ascii ''uri'', JStr (ascii ''file://'' @ fp)),
                          (ascii ''version'', JNum 2)]),
                   (ascii ''contentChanges'', JArr [JObj [(ascii ''text'', JStr c1)]])]),
            (server_id server, ascii ''textDocument/didChange'',
             JObj [(ascii ''textDocument'',
                    JObj [(ascii ''uri'', JStr (ascii ''file://'' @ fp)),
                          (ascii ''version'', JNum 3)]),
                   (ascii ''contentChanges'', JArr [JObj [(ascii ''text'', JStr c2)]])]),
            (server_id server, ascii ''textDocument/didChange'',
             JObj [(ascii ''textDocument'',
                    JObj [(ascii ''uri'', JStr (ascii ''file://'' @ fp)),
                          (ascii ''version'', JNum 4)]),
                   (ascii ''contentChanges'', JArr [JObj [(ascii ''text'', JStr c3)]])])]
       \<and> documentVersions (didChangeDocument fp c1 (didOpenDocument fp l c0 st)) fp = Some 2
       \<and> documentVersions (didChangeDocument fp c2
            (didChangeDocument fp c1 (didOpenDocument fp l c0 st))) fp = Some 3
       \<and> documentVersions (didChangeDocument fp c3 (didChangeDocument fp c2
            (didChangeDocument fp c1 (didOpenDocument fp l c0 st)))) fp = Some 4
       \<and> documentVersions (didCloseDocument fp st') fp = None
       \<and> notifications (didOpenDocument fp l' c4 (didCloseDocument fp st')) =
            notifications (didCloseDocument fp st') @
             [(server_id server, ascii ''textDocument/didOpen'',
               JObj [(ascii ''textDocument'',
                      JObj [(ascii ''uri'', JStr (ascii ''file://'' @ fp)),
                            (ascii ''languageId'', JStr l'),
                            (ascii ''version'', JNum 1),
                            (ascii ''text'', JStr c4)])])]
       \<and> documentVersions (didOpenDocument fp l' c4 (didCloseDocument fp st')) fp = Some 1"
proof -
  let ?st1 = "didOpenDocument fp l c0 st"
  let ?st2 = "didChangeDocument fp c1 ?st1"
  let ?st3 = "didChangeDocument fp c2 ?st2"
  let ?st5 = "didCloseDocument fp st'"
  have s1: "getServerForFile ?st1 fp = Some server"
    using server by (simp add: getServerForFile_cong [of ?st1 st])
  have s2: "getServerForFile ?st2 fp = Some server"
    using server by (simp add: getServerForFile_cong [of ?st2 st])
  have s3: "getServerForFile ?st3 fp = Some server"
    using server by (simp add: getServerForFile_cong [of ?st3 st])
  have v1: "documentVersions ?st1 fp = Some 1"
    by (simp add: didOpen_effect [OF server])
  have v2: "documentVersions ?st2 fp = Some 2"
    using didChange_known_version(2) [OF s1 v1] by simp
  have v3: "documentVersions ?st3 fp = Some 3"
    using didChange_known_version(2) [OF s2 v2] by simp
  have v4: "documentVersions (didChangeDocument fp c3 ?st3) fp = Some 4"
    using didChange_known_version(2) [OF s3 v3] by simp
  have a: "notifications ?st1 = notifications st @
           [(server_id server, ascii ''textDocument/didOpen'', didOpen_params fp l 1 c0)]"
    by (simp add: didOpen_effect [OF server])
  have b: "notifications (didChangeDocument fp c3 ?st3) = notifications ?st1 @
           [(server_id server, ascii ''textDocument/didChange'', didChange_params fp 2 c1),
            (server_id server, ascii ''textDocument/didChange'', didChange_params fp 3 c2),
            (server_id server, ascii ''textDocument/didChange'', didChange_params fp 4 c3)]"
    using didChange_known_version(1) [OF s1 v1, of c1]
          didChange_known_version(1) [OF s2 v2, of c2]
          didChange_known_version(1) [OF s3 v3, of c3]
    by (simp add: eval_nat_numeral)
  have c: "documentVersions ?st5 fp = None"
    by (simp add: didClose_effect [OF server'])
  have s5: "getServerForFile ?st5 fp = Some server"
    using server' by (simp add: getServerForFile_cong [of ?st5 st'])
  have d: "notifications (didOpenDocument fp l' c4 ?st5) = notifications ?st5 @
             [(server_id server, ascii ''textDocument/didOpen'', didOpen_params fp l' 1 c4)]"
    by (simp add: didOpen_effect [OF s5])
  have e: "documentVersions (didOpenDocument fp l' c4 ?st5) fp = Some 1"
    by (simp add: didOpen_effect [OF s5])
  show ?thesis
    apply (intro conjI)
            apply (simp add: a didOpen_params_def file_uri_def)
           apply (rule v1)
          apply (simp add: b didChange_params_def file_uri_def)
         apply (rule v2)
        apply (rule v3)
       apply (rule v4)
      apply (rule c)
     apply (simp add: d didOpen_params_def file_uri_def)
    apply (rule e)
    done
qed

theorem open_change_close_versions_witness:
  "getServerForFile rust_renderer (ascii ''a.rs'') = Some rust_server
   \<and> getServerForFile
        (didChangeDocument (ascii ''a.rs'') (ascii ''c'')
          (didOpenDocument (ascii ''a.rs'') (ascii ''rust'') (ascii ''a'') rust_renderer))
        (ascii ''a.rs'') = Some rust_server
   \<and> documentVersions
        (didOpenDocument (ascii ''a.rs'') (ascii ''rust'') (ascii ''b'')
          (didCloseDocument (ascii ''a.rs'')
            (didChangeDocument (ascii ''a.rs'') (ascii ''c'')
              (didOpenDocument (ascii ''a.rs'') (ascii ''rust'') (ascii ''a'') rust_renderer))))
        (ascii ''a.rs'') = Some 1"
proof -
  let ?st' = "didChangeDocument (ascii ''a.rs'') (ascii ''c'')
                (didOpenDocument (ascii ''a.rs'') (ascii ''rust'') (ascii ''a'') rust_renderer)"
  have h1: "getServerForFile rust_renderer (ascii ''a.rs'') = Some rust_server"
    by (rule rust_server_for_a_rs)
  have h2: "getServerForFile ?st' (ascii ''a.rs'') = Some rust_server"
    using h1 by (simp add: getServerForFile_cong [of ?st' rust_renderer])
  from open_change_close_versions [OF h1 h2, of _ _ _ _ _ "ascii ''rust''" "ascii ''b''"] h1 h2
  show ?thesis by blast
qed


text \<open>
  Claim C7, as stated, fails: with a server registered for \<open>.rs\<close> files and no version
  recorded for \<open>a.rs\<close>, \<open>didChange\<close> records version 2 and sends a notification.
\<close>

theorem didChange_without_open_counterexample:
  "documentVersions rust_renderer (ascii ''a.rs'') = None
   \<and> documentVersions (didChangeDocument (ascii ''a.rs'') (ascii ''x'') rust_renderer)
         (ascii ''a.rs'') = Some 2
   \<and> notifications (didChangeDocument (ascii ''a.rs'') (ascii ''x'') rust_renderer) =
         [(ascii ''lsp-rust-1'', ascii ''textDocument/didChange'',
           JObj [(ascii ''textDocument'',
                  JObj [(ascii ''uri'', JStr (ascii ''file://'' @ ascii ''a.rs'')),
                        (ascii ''version'', JNum 2)]),
                 (ascii ''contentChanges'', JArr [JObj [(ascii ''text'', JStr (ascii ''x''))]])])]
   \<and> didChangeDocument (ascii ''a.rs'') (ascii ''x'') rust_renderer \<noteq> rust_renderer"
proof -
  have v: "documentVersions rust_renderer (ascii ''a.rs'') = None"
    by (simp add: rust_renderer_def)
  have e: "didChangeDocument (ascii ''a.rs'') (ascii ''x'') rust_renderer =
             rust_renderer\<lparr>documentVersions := (documentVersions rust_renderer)(ascii ''a.rs'' \<mapsto> 2),
               notifications := notifications rust_renderer @
                 [(server_id rust_server, ascii ''textDocument/didChange'',
                   didChange_params (ascii ''a.rs'') 2 (ascii ''x''))]\<rparr>"
    by (simp add: didChange_effect [OF rust_server_for_a_rs] v version_or_1_def eval_nat_numeral)
  have n: "notifications rust_renderer = []" and i: "server_id rust_server = ascii ''lsp-rust-1''"
    by (simp_all add: rust_renderer_def rust_server_def)
  have "notifications (didChangeDocument (ascii ''a.rs'') (ascii ''x'') rust_renderer)
          \<noteq> notifications rust_renderer"
    by (simp add: e n)
  then have "didChangeDocument (ascii ''a.rs'') (ascii ''x'') rust_renderer \<noteq> rust_renderer"
    by auto
  with v e n i show ?thesis by (simp add: didChange_params_def file_uri_def)
qed

text \<open>
  Claim C7, amended. A \<open>didChange\<close> for a file with no recorded version (never opened,
  or closed) does nothing when no server is registered for the file; when one is, the
  missing version counts as 1: version 2 is recorded and a \<open>didChange\<close> notification
  with version 2 and the full text is sent.
\<close>

theorem didChange_without_open:
  assumes "documentVersions st fp = None"
  shows "didChangeDocument fp c st =
           (case getServerForFile st fp of
              None \<Rightarrow> st
            | Some server \<Rightarrow>
                st\<lparr>documentVersions := (documentVersions st)(fp \<mapsto> 2),
                   notifications := notifications st @
                     [(server_id server, ascii ''textDocument/didChange'',
                       JObj [(ascii ''textDocument'',
                              JObj [(ascii ''uri'', JStr (ascii ''file://'' @ fp)),
                                    (ascii ''version'', JNum 2)]),
                             (ascii ''contentChanges'', JArr [JObj [(ascii ''text'', JStr c)]])])]\<rparr>)"
  using assms
  by (simp add: didChangeDocument_def sendLSPNotification_def version_or_1_def eval_nat_numeral
                didChange_params_def file_uri_def
           split: option.splits)

theorem didChange_without_open_witness:
  "documentVersions rust_renderer (ascii ''a.rs'') = None
   \<and> didChangeDocument (ascii ''a.rs'') (ascii ''x'') rust_renderer =
       rust_renderer\<lparr>documentVersions := (documentVersions rust_renderer)(ascii ''a.rs'' \<mapsto> 2),
         notifications := notifications rust_renderer @
           [(server_id rust_server, ascii ''textDocument/didChange'',
             JObj [(ascii ''textDocument'',
                    JObj [(ascii ''uri'', JStr (ascii ''file://'' @ ascii ''a.rs'')),
                          (ascii ''version'', JNum 2)]),
                   (ascii ''contentChanges'', JArr [JObj [(ascii ''text'', JStr (ascii ''x''))]])])]\<rparr>"
proof -
  have v: "documentVersions rust_renderer (ascii ''a.rs'') = None"
    by (simp add: rust_renderer_def)
  from didChange_without_open [OF v, of "ascii ''x''"] v show ?thesis
    by (simp add: rust_server_for_a_rs)
qed

section \<open>Request correlation\<close>

lemma ascii_simps:
  "ascii [] = []" "ascii (c # cs) = of_char c # ascii cs"
  by (simp_all add: ascii_def)

lemma send_lsp_request_registered:
  assumes "lspServers w sid = Some r"
  shows "\<exists>w1. send_lsp_request stringify sid method params w =
                Inr (r, Suc (requestIdCounter (objects w r)), promiseCount w, w1)
            \<and> lspServers w1 = lspServers w
            \<and> pendingRequests (objects w1 r) =
                (pendingRequests (objects w r))(Suc (requestIdCounter (objects w r)) \<mapsto> promiseCount w)
            \<and> requestIdCounter (objects w1 r) = Suc (requestIdCounter (objects w r))
            \<and> promises w1 = (promises w)(promiseCount w \<mapsto> Pending)
            \<and> promiseCount w1 = Suc (promiseCount w)"
  using assms
  by (simp add: send_lsp_request_def Let_def update_object_def stdin_write_def)

lemma send_lsp_request_result:
  assumes "send_lsp_request stringify sid method params w = Inr (r, k, h, w1)"
  shows "lspServers w sid = Some r" "k = Suc (requestIdCounter (objects w r))" "h = promiseCount w"
    "lspServers w1 = lspServers w"
    "pendingRequests (objects w1 r) = (pendingRequests (objects w r))(k \<mapsto> h)"
    "promises w1 = (promises w)(h \<mapsto> Pending)"
  using assms
  by (auto simp add: send_lsp_request_def Let_def update_object_def stdin_write_def
           split: option.splits)

lemma pending_get_num [simp]: "pending_get m (JNum (int k)) = m k"
  by (simp add: pending_get_def)

lemma pending_delete_num [simp]: "pending_delete m (JNum (int k)) = m(k := None)"
  by (simp add: pending_delete_def)

lemma receive_response_pending:
  assumes "lspServers w sid = Some r" and "pendingRequests (objects w r) k = Some h"
  shows "promises (receive_message sid (rpc_response k v) w) =
           (if promises w h = Some Pending then (promises w)(h \<mapsto> Fulfilled (Some v))
            else promises w)"
    and "pendingRequests (objects (receive_message sid (rpc_response k v) w) r) =
           (pendingRequests (objects w r))(k := None)"
    and "lspServers (receive_message sid (rpc_response k v) w) = lspServers w"
  using assms
  by (simp_all add: receive_message_def handleLSPMessage_def handle_response_def
        handle_notification_def rpc_response_def Let_def update_object_def resolve_def
        settle_def ascii_simps)

lemma send_requests_registered:
  assumes "lspServers w sid = Some r"
  shows "\<exists>w1. send_requests stringify sid reqs w =
                Inr (map (\<lambda>i. (Suc (requestIdCounter (objects w r)) + i, promiseCount w + i))
                         [0..<length reqs], w1)
            \<and> lspServers w1 = lspServers w
            \<and> requestIdCounter (objects w1 r) = requestIdCounter (objects w r) + length reqs
            \<and> promiseCount w1 = promiseCount w + length reqs
            \<and> (\<forall>k \<le> requestIdCounter (objects w r).
                  pendingRequests (objects w1 r) k = pendingRequests (objects w r) k)
            \<and> (\<forall>h < promiseCount w. promises w1 h = promises w h)
            \<and> (\<forall>i < length reqs.
                  pendingRequests (objects w1 r) (Suc (requestIdCounter (objects w r)) + i)
                    = Some (promiseCount w + i)
                  \<and> promises w1 (promiseCount w + i) = Some Pending)"
  using assms
proof (induction reqs arbitrary: w)
  case Nil
  then show ?case by simp
next
  case (Cons req reqs)
  obtain meth params where req: "req = (meth, params)" by (cases req)
  let ?c = "requestIdCounter (objects w r)" and ?p = "promiseCount w"
  from send_lsp_request_registered [OF Cons.prems, of stringify meth params]
  obtain w1 where s1: "send_lsp_request stringify sid meth params w = Inr (r, Suc ?c, ?p, w1)"
    and l1: "lspServers w1 = lspServers w"
    and p1: "pendingRequests (objects w1 r) = (pendingRequests (objects w r))(Suc ?c \<mapsto> ?p)"
    and c1: "requestIdCounter (objects w1 r) = Suc ?c"
    and m1: "promises w1 = (promises w)(?p \<mapsto> Pending)"
    and n1: "promiseCount w1 = Suc ?p"
    by blast
  from l1 Cons.prems have r1: "lspServers w1 sid = Some r" by simp
  from Cons.IH [OF r1]
  obtain w2 where s2: "send_requests stringify sid reqs w1 =
        Inr (map (\<lambda>i. (Suc (requestIdCounter (objects w1 r)) + i, promiseCount w1 + i))
                 [0..<length reqs], w2)"
    and l2: "lspServers w2 = lspServers w1"
    and c2: "requestIdCounter (objects w2 r) = requestIdCounter (objects w1 r) + length reqs"
    and n2: "promiseCount w2 = promiseCount w1 + length reqs"
    and k2: "\<forall>k \<le> requestIdCounter (objects w1 r).
                pendingRequests (objects w2 r) k = pendingRequests (objects w1 r) k"
    and h2: "\<forall>h < promiseCount w1. promises w2 h = promises w1 h"
    and i2: "\<forall>i < length reqs.
                pendingRequests (objects w2 r) (Suc (requestIdCounter (objects w1 r)) + i)
                  = Some (promiseCount w1 + i)
                \<and> promises w2 (promiseCount w1 + i) = Some Pending"
    by blast
  have calls: "(Suc ?c, ?p) # map (\<lambda>i. (Suc (Suc ?c) + i, Suc ?p + i)) [0..<length reqs]
        = map (\<lambda>i. (Suc ?c + i, ?p + i)) [0..<length (req # reqs)]"
    by (simp add: upt_conv_Cons map_Suc_upt [symmetric] del: upt_Suc)
  have "send_requests stringify sid (req # reqs) w =
          Inr (map (\<lambda>i. (Suc ?c + i, ?p + i)) [0..<length (req # reqs)], w2)"
    using s1 s2 calls by (simp add: req c1 n1)
  moreover have "lspServers w2 = lspServers w" using l1 l2 by simp
  moreover have "requestIdCounter (objects w2 r) = ?c + length (req # reqs)"
    using c1 c2 by simp
  moreover have "promiseCount w2 = ?p + length (req # reqs)" using n1 n2 by simp
  moreover have "\<forall>k \<le> ?c. pendingRequests (objects w2 r) k = pendingRequests (objects w r) k"
    using k2 c1 p1 by simp
  moreover have "\<forall>h < ?p. promises w2 h = promises w h"
    using h2 n1 m1 by simp
  moreover have "\<forall>i < length (req # reqs).
                  pendingRequests (objects w2 r) (Suc ?c + i) = Some (?p + i)
                  \<and> promises w2 (?p + i) = Some Pending"
  proof (intro allI impI)
    fix i assume i: "i < length (req # reqs)"
    show "pendingRequests (objects w2 r) (Suc ?c + i) = Some (?p + i)
          \<and> promises w2 (?p + i) = Some Pending"
    proof (cases i)
      case 0
      then show ?thesis using k2 h2 c1 n1 p1 m1 by simp
    next
      case (Suc j)
      with i have "j < length reqs" by simp
      with i2 show ?thesis by (simp add: Suc c1 n1)
    qed
  qed
  ultimately show ?case by blast
qed

lemma receive_responses_Cons:
  "receive_responses sid ((k, v) # rs) w =
     receive_responses sid rs (receive_message sid (rpc_response k v) w)"
  by (simp add: receive_responses_def)

lemma receive_responses_correlate:
  assumes "lspServers w sid = Some r"
    and "distinct (map fst rs)"
    and "\<forall>k \<in> fst ` set rs. pendingRequests (objects w r) k = Some (H k)
                               \<and> promises w (H k) = Some Pending"
    and "inj_on H (fst ` set rs)"
  shows "(\<forall>(k, v) \<in> set rs. promises (receive_responses sid rs w) (H k) = Some (Fulfilled (Some v)))
       \<and> (\<forall>h. h \<notin> H ` fst ` set rs \<longrightarrow> promises (receive_responses sid rs w) h = promises w h)"
  using assms
proof (induction rs arbitrary: w)
  case Nil
  then show ?case by (simp add: receive_responses_def)
next
  case (Cons kv rs)
  obtain k v where kv: "kv = (k, v)" by (cases kv)
  let ?w1 = "receive_message sid (rpc_response k v) w"
  have pk: "pendingRequests (objects w r) k = Some (H k)" and qk: "promises w (H k) = Some Pending"
    using Cons.prems(3) by (simp_all add: kv)
  note step = receive_response_pending [OF Cons.prems(1) pk, of v]
  have m1: "promises ?w1 = (promises w)(H k \<mapsto> Fulfilled (Some v))"
    using step(1) qk by simp
  have reg1: "lspServers ?w1 sid = Some r" using step(3) Cons.prems(1) by simp
  have d1: "distinct (map fst rs)" and knot: "k \<notin> fst ` set rs"
    using Cons.prems(2) by (simp_all add: kv)
  have inj1: "inj_on H (fst ` set rs)"
    using Cons.prems(4) by (simp add: kv inj_on_def)
  have Hk: "H k' \<noteq> H k" if "k' \<in> fst ` set rs" for k'
  proof
    assume "H k' = H k"
    with Cons.prems(4) that have "k' = k" by (auto simp: kv inj_on_def)
    with knot that show False by simp
  qed
  have pend1: "\<forall>k' \<in> fst ` set rs. pendingRequests (objects ?w1 r) k' = Some (H k')
                               \<and> promises ?w1 (H k') = Some Pending"
  proof
    fix k' assume k': "k' \<in> fst ` set rs"
    with knot have "k' \<noteq> k" by auto
    moreover from k' Cons.prems(3) have "pendingRequests (objects w r) k' = Some (H k')"
      "promises w (H k') = Some Pending" by (auto simp: kv)
    ultimately show "pendingRequests (objects ?w1 r) k' = Some (H k')
                               \<and> promises ?w1 (H k') = Some Pending"
      using step(2) m1 Hk [OF k'] by simp
  qed
  from Cons.IH [OF reg1 d1 pend1 inj1]
  have ih1: "\<forall>(k', v') \<in> set rs. promises (receive_responses sid rs ?w1) (H k') = Some (Fulfilled (Some v'))"
    and ih2: "\<forall>h. h \<notin> H ` fst ` set rs \<longrightarrow> promises (receive_responses sid rs ?w1) h = promises ?w1 h"
    by blast+
  have "H k \<notin> H ` fst ` set rs" using Hk by force
  with ih2 m1 have here: "promises (receive_responses sid rs ?w1) (H k) = Some (Fulfilled (Some v))"
    by simp
  have a: "\<forall>(k', v') \<in> set (kv # rs).
            promises (receive_responses sid (kv # rs) w) (H k') = Some (Fulfilled (Some v'))"
    using here ih1 by (simp add: kv receive_responses_Cons)
  have b: "\<forall>h. h \<notin> H ` fst ` set (kv # rs) \<longrightarrow>
            promises (receive_responses sid (kv # rs) w) h = promises w h"
    using ih2 m1 by (simp add: kv receive_responses_Cons)
  from a b show ?case by blast
qed

text \<open>
  Claim C2. On a registered server, any number of \<open>send-lsp-request\<close> calls succeed and
  get their own request ids and promises. Whatever the order in which responses to some
  of these requests arrive (each id at most once), every response fulfils exactly the
  promise of the call whose request id it carries, with its own \<open>result\<close>.
\<close>

theorem responses_correlate_by_id:
  assumes "lspServers w sid = Some r"
  shows "\<exists>calls w1. send_requests stringify sid reqs w = Inr (calls, w1)
           \<and> length calls = length reqs
           \<and> (\<forall>rs. distinct (map fst rs) \<and> fst ` set rs \<subseteq> fst ` set calls \<longrightarrow>
                 (\<forall>(k, v) \<in> set rs. \<forall>h. (k, h) \<in> set calls \<longrightarrow>
                    promises (receive_responses sid rs w1) h = Some (Fulfilled (Some v))))"
proof -
  let ?c = "requestIdCounter (objects w r)" and ?p = "promiseCount w"
  let ?calls = "map (\<lambda>i. (Suc ?c + i, ?p + i)) [0..<length reqs]"
  let ?H = "\<lambda>k. ?p + (k - Suc ?c)"
  from send_requests_registered [OF assms, of stringify reqs]
  obtain w1 where s: "send_requests stringify sid reqs w = Inr (?calls, w1)"
    and l: "lspServers w1 = lspServers w"
    and i: "\<forall>i < length reqs. pendingRequests (objects w1 r) (Suc ?c + i) = Some (?p + i)
                  \<and> promises w1 (?p + i) = Some Pending"
    by blast
  have reg1: "lspServers w1 sid = Some r" using l assms by simp
  have mem: "\<exists>i < length reqs. k = Suc ?c + i \<and> h = ?p + i" if "(k, h) \<in> set ?calls" for k h
    using that by auto
  have key: "\<exists>i < length reqs. k = Suc ?c + i" if "k \<in> fst ` set ?calls" for k
    using that by auto
  have "\<forall>(k, v) \<in> set rs. \<forall>h. (k, h) \<in> set ?calls \<longrightarrow>
           promises (receive_responses sid rs w1) h = Some (Fulfilled (Some v))"
    if d: "distinct (map fst rs)" and sub: "fst ` set rs \<subseteq> fst ` set ?calls" for rs
  proof -
    have pend: "\<forall>k \<in> fst ` set rs. pendingRequests (objects w1 r) k = Some (?H k)
                               \<and> promises w1 (?H k) = Some Pending"
    proof
      fix k assume "k \<in> fst ` set rs"
      with sub have "k \<in> fst ` set ?calls" by blast
      from key [OF this] obtain j where "j < length reqs" "k = Suc ?c + j" by blast
      with i show "pendingRequests (objects w1 r) k = Some (?H k)
                               \<and> promises w1 (?H k) = Some Pending" by simp
    qed
    have inj: "inj_on ?H (fst ` set rs)"
    proof (rule inj_onI)
      fix x y assume x: "x \<in> fst ` set rs" and y: "y \<in> fst ` set rs" and e: "?H x = ?H y"
      from x sub have "x \<in> fst ` set ?calls" by blast
      from key [OF this] obtain i where xi: "x = Suc ?c + i" by blast
      from y sub have "y \<in> fst ` set ?calls" by blast
      from key [OF this] obtain j where yj: "y = Suc ?c + j" by blast
      from e xi yj show "x = y" by simp
    qed
    from receive_responses_correlate [OF reg1 d pend inj]
    have c: "\<forall>(k, v) \<in> set rs. promises (receive_responses sid rs w1) (?H k) = Some (Fulfilled (Some v))"
      by blast
    show ?thesis
    proof (intro ballI, clarify)
      fix k v h assume kv: "(k, v) \<in> set rs" and kh: "(k, h) \<in> set ?calls"
      from mem [OF kh] have "h = ?H k" by auto
      with c kv show "promises (receive_responses sid rs w1) h = Some (Fulfilled (Some v))"
        by blast
    qed
  qed
  then have "\<forall>rs. distinct (map fst rs) \<and> fst ` set rs \<subseteq> fst ` set ?calls \<longrightarrow>
                 (\<forall>(k, v) \<in> set rs. \<forall>h. (k, h) \<in> set ?calls \<longrightarrow>
                    promises (receive_responses sid rs w1) h = Some (Fulfilled (Some v)))"
    by blast
  moreover have "length ?calls = length reqs" by simp
  ultimately show ?thesis using s by blast
qed

lemma rust_main_facts:
  "lspServers rust_main rust_id = Some (Suc 0)"
  "requestIdCounter (objects rust_main (Suc 0)) = 0"
  "pendingRequests (objects rust_main (Suc 0)) = Map.empty"
  "promiseCount rust_main = 0"
  "promises rust_main = Map.empty"
  by (simp_all add: rust_main_def rust_id_def start_lsp_server_def initial_main_state_def
        server_id_of_def decimal.simps Let_def ascii_simps)

theorem responses_correlate_by_id_witness:
  "lspServers rust_main rust_id = Some 1
   \<and> (\<exists>w1. send_requests plain_stringify rust_id
               [(ascii ''initialize'', None), (ascii ''textDocument/hover'', None),
                (ascii ''shutdown'', None)] rust_main
             = Inr ([(1, 0), (2, 1), (3, 2)], w1)
          \<and> promises (receive_responses rust_id
                [(3, JStr (ascii ''c'')), (1, JStr (ascii ''a'')), (2, JStr (ascii ''b''))] w1) 0
              = Some (Fulfilled (Some (JStr (ascii ''a''))))
          \<and> promises (receive_responses rust_id
                [(3, JStr (ascii ''c'')), (1, JStr (ascii ''a'')), (2, JStr (ascii ''b''))] w1) 1
              = Some (Fulfilled (Some (JStr (ascii ''b''))))
          \<and> promises (receive_responses rust_id
                [(3, JStr (ascii ''c'')), (1, JStr (ascii ''a'')), (2, JStr (ascii ''b''))] w1) 2
              = Some (Fulfilled (Some (JStr (ascii ''c'')))))"
proof -
  let ?reqs = "[(ascii ''initialize'', None :: json option), (ascii ''textDocument/hover'', None),
                (ascii ''shutdown'', None)]"
  let ?rs = "[(3::nat, JStr (ascii ''c'')), (1, JStr (ascii ''a'')), (2, JStr (ascii ''b''))]"
  have reg: "lspServers rust_main rust_id = Some (Suc 0)" by (rule rust_main_facts)
  from send_requests_registered [OF reg, of plain_stringify ?reqs]
  obtain w0 where "send_requests plain_stringify rust_id ?reqs rust_main
      = Inr (map (\<lambda>i. (Suc (requestIdCounter (objects rust_main (Suc 0))) + i,
                           promiseCount rust_main + i)) [0..<length ?reqs], w0)"
    by blast
  moreover have "map (\<lambda>i. (Suc (requestIdCounter (objects rust_main (Suc 0))) + i,
                           promiseCount rust_main + i)) [0..<length ?reqs]
                 = [(1, 0), (2, 1), (3, 2)]"
    by (simp add: rust_main_facts upt_rec)
  ultimately have s0: "send_requests plain_stringify rust_id ?reqs rust_main
                        = Inr ([(1, 0), (2, 1), (3, 2)], w0)"
    by (simp only:)
  from responses_correlate_by_id [OF reg, of plain_stringify ?reqs]
  obtain calls w1 where s1: "send_requests plain_stringify rust_id ?reqs rust_main = Inr (calls, w1)"
    and c: "\<forall>rs. distinct (map fst rs) \<and> fst ` set rs \<subseteq> fst ` set calls \<longrightarrow>
                 (\<forall>(k, v) \<in> set rs. \<forall>h. (k, h) \<in> set calls \<longrightarrow>
                    promises (receive_responses rust_id rs w1) h = Some (Fulfilled (Some v)))"
    by blast
  from s0 s1 have calls: "calls = [(1, 0), (2, 1), (3, 2)]" by simp
  have "distinct (map fst ?rs) \<and> fst ` set ?rs \<subseteq> fst ` set calls"
    by (simp add: calls)
  with c have "\<forall>(k, v) \<in> set ?rs. \<forall>h. (k, h) \<in> set calls \<longrightarrow>
                    promises (receive_responses rust_id ?rs w1) h = Some (Fulfilled (Some v))"
    by blast
  then have "promises (receive_responses rust_id ?rs w1) 0 = Some (Fulfilled (Some (JStr (ascii ''a''))))"
    "promises (receive_responses rust_id ?rs w1) 1 = Some (Fulfilled (Some (JStr (ascii ''b''))))"
    "promises (receive_responses rust_id ?rs w1) 2 = Some (Fulfilled (Some (JStr (ascii ''c''))))"
    by (simp_all add: calls)
  with reg s1 calls show ?thesis by auto
qed

lemma handle_notification_promises: "promises (handle_notification sid m w) = promises w"
  by (simp add: handle_notification_def)



lemma late_message_dropped:
  assumes "lspServers w sid = Some r" and "pendingRequests (objects w r) k = None"
    and "get_field m (ascii ''id'') = Some (JNum (int k))"
  shows "handleLSPMessage sid m w = Inr (handle_notification sid m w)"
proof -
  have "m \<noteq> JNull" using assms(3) by auto
  moreover have "handle_response r m w = w"
    using assms(2,3) by (simp add: handle_response_def)
  ultimately show ?thesis
    using assms(1) by (simp add: handleLSPMessage_def)
qed


lemma one_pending_facts:
  "lspServers one_pending rust_id = Some (Suc 0)"
  "pendingRequests (objects one_pending (Suc 0)) (Suc 0) = Some 0"
  "promises one_pending 0 = Some Pending"
proof -
  from send_lsp_request_registered [OF rust_main_facts(1), of plain_stringify "ascii ''initialize''" None]
  obtain w1 where s: "send_lsp_request plain_stringify rust_id (ascii ''initialize'') None rust_main =
                Inr (Suc 0, Suc (requestIdCounter (objects rust_main (Suc 0))), promiseCount rust_main, w1)"
    and l: "lspServers w1 = lspServers rust_main"
    and p: "pendingRequests (objects w1 (Suc 0)) =
                (pendingRequests (objects rust_main (Suc 0)))
                  (Suc (requestIdCounter (objects rust_main (Suc 0))) \<mapsto> promiseCount rust_main)"
    and m: "promises w1 = (promises rust_main)(promiseCount rust_main \<mapsto> Pending)"
    by auto
  have e: "one_pending = w1" by (simp add: one_pending_def s)
  show "lspServers one_pending rust_id = Some (Suc 0)"
    by (simp add: e l rust_main_facts)
  show "pendingRequests (objects one_pending (Suc 0)) (Suc 0) = Some 0"
    by (simp add: e p rust_main_facts)
  show "promises one_pending 0 = Some Pending"
    by (simp add: e m rust_main_facts)
qed

lemma rpc_response_id: "get_field (rpc_response k v) (ascii ''id'') = Some (JNum (int k))"
  by (simp add: rpc_response_def ascii_simps)



text \<open>
  Claim C10. When the write of a request just sent reports an error, the callback removes
  the entry that \<open>send-lsp-request\<close> registered and rejects the promise with that error;
  afterwards the timer callback changes nothing, and a message with that id settles no
  promise.
\<close>

theorem write_error_rejects_and_unregisters:
  assumes sent: "send_lsp_request stringify sid method params w0 = Inr (r, k, h, w)"
    and "get_field m (ascii ''id'') = Some (JNum (int k))"
  shows "promises (write_callback r k h (Some e) w) = (promises w0)(h \<mapsto> Rejected e)
       \<and> pendingRequests (objects (write_callback r k h (Some e) w) r) k = None
       \<and> timeout_callback r k h (write_callback r k h (Some e) w)
            = write_callback r k h (Some e) w
       \<and> (\<exists>w'. handleLSPMessage sid m (write_callback r k h (Some e) w) = Inr w'
                \<and> promises w' = promises (write_callback r k h (Some e) w)
                \<and> objects w' = objects (write_callback r k h (Some e) w))"
proof -
  let ?w = "write_callback r k h (Some e) w"
  note s = send_lsp_request_result [OF sent]
  have a: "promises ?w = (promises w0)(h \<mapsto> Rejected e)"
    using s(6) by (simp add: write_callback_def reject_def settle_def update_object_def)
  have n: "pendingRequests (objects ?w r) k = None"
    by (simp add: write_callback_def reject_def settle_def update_object_def)
  have l: "lspServers ?w sid = Some r"
    using s(1,4) by (simp add: write_callback_def reject_def settle_def update_object_def)
  have c: "timeout_callback r k h ?w = ?w"
    using n by (simp add: timeout_callback_def [of r k h ?w])
  have d: "handleLSPMessage sid m ?w = Inr (handle_notification sid m ?w)"
    by (rule late_message_dropped [OF l n assms(2)])
  show ?thesis
    apply (intro conjI)
       apply (rule a)
      apply (rule n)
     apply (rule c)
    apply (rule exI [of _ "handle_notification sid m ?w"])
    apply (intro conjI)
      apply (rule d)
     apply (rule handle_notification_promises)
    apply (rule handle_notification_objects)
    done
qed

lemma one_pending_sent:
  "send_lsp_request plain_stringify rust_id (ascii ''initialize'') None rust_main
     = Inr (Suc 0, Suc 0, 0, one_pending)"
proof -
  from send_lsp_request_registered [OF rust_main_facts(1), of plain_stringify "ascii ''initialize''" None]
  obtain w1 where s: "send_lsp_request plain_stringify rust_id (ascii ''initialize'') None rust_main =
                Inr (Suc 0, Suc (requestIdCounter (objects rust_main (Suc 0))), promiseCount rust_main, w1)"
    by auto
  have e: "one_pending = w1" by (simp add: one_pending_def s)
  show ?thesis by (simp add: s e rust_main_facts)
qed

theorem write_error_rejects_and_unregisters_witness:
  "send_lsp_request plain_stringify rust_id (ascii ''initialize'') None rust_main
     = Inr (1, 1, 0, one_pending)
   \<and> get_field (rpc_response 1 (JStr (ascii ''late''))) (ascii ''id'') = Some (JNum (int 1))
   \<and> promises (write_callback 1 1 0 (Some (StreamError (ascii ''EPIPE''))) one_pending) 0
        = Some (Rejected (StreamError (ascii ''EPIPE'')))
   \<and> pendingRequests
        (objects (write_callback 1 1 0 (Some (StreamError (ascii ''EPIPE''))) one_pending) 1) 1
        = None"
proof -
  let ?m = "rpc_response (Suc 0) (JStr (ascii ''late''))"
  have i: "get_field ?m (ascii ''id'') = Some (JNum (int (Suc 0)))" by (rule rpc_response_id)
  note t = write_error_rejects_and_unregisters
             [OF one_pending_sent i, of "StreamError (ascii ''EPIPE'')"]
  from t have a: "promises (write_callback (Suc 0) (Suc 0) 0 (Some (StreamError (ascii ''EPIPE''))) one_pending)
        = (promises rust_main)(0 \<mapsto> Rejected (StreamError (ascii ''EPIPE'')))"
    and b: "pendingRequests
        (objects (write_callback (Suc 0) (Suc 0) 0 (Some (StreamError (ascii ''EPIPE''))) one_pending) (Suc 0))
        (Suc 0) = None"
    by (rule conjunct1, rule conjunct2 [THEN conjunct1])
  with i one_pending_sent show ?thesis by simp
qed




text \<open>
  Claim C8 fails on the code. With request 1 pending, an incoming message that has both
  \<open>id\<close> 1 and a \<open>method\<close> (a request of the server) is looked up in the pending map:
  the entry of request 1 is removed and its promise is fulfilled with \<open>undefined\<close>.
\<close>

theorem server_request_settles_pending_request:
  "pendingRequests (objects one_pending 1) 1 = Some 0
   \<and> promises one_pending 0 = Some Pending
   \<and> get_field configuration_request (ascii ''method'')
        = Some (JStr (ascii ''workspace/configuration''))
   \<and> (\<exists>w'. handleLSPMessage rust_id configuration_request one_pending = Inr w'
          \<and> promises w' 0 = Some (Fulfilled None)
          \<and> pendingRequests (objects w' 1) 1 = None)"
  using one_pending_facts
  by (simp add: handleLSPMessage_def handle_response_def handle_notification_def
        configuration_request_def ascii_simps pending_get_def pending_delete_def Let_def
        update_object_def resolve_def settle_def publishDiagnostics_def)

section \<open>Message framing\<close>

subsection \<open>One round of the loop\<close>

lemma process_messages_no_match:
  "content_length_match (messageBuffer (objects w r)) = None \<Longrightarrow>
   process_messages parse r sid w = w"
  by (subst process_messages.simps) simp

lemma process_messages_incomplete:
  "content_length_match (messageBuffer (objects w r)) = Some n \<Longrightarrow>
   length (messageBuffer (objects w r)) < nat (indexOf (messageBuffer (objects w r)) CRLFCRLF + 4) + n \<Longrightarrow>
   process_messages parse r sid w = w"
  by (subst process_messages.simps) (simp add: Let_def)

lemma process_messages_extract:
  "content_length_match (messageBuffer (objects w r)) = Some n \<Longrightarrow>
   nat (indexOf (messageBuffer (objects w r)) CRLFCRLF + 4) + n \<le> length (messageBuffer (objects w r)) \<Longrightarrow>
   process_messages parse r sid w =
     process_messages parse r sid
       (deliver parse sid
          (substring (messageBuffer (objects w r))
             (nat (indexOf (messageBuffer (objects w r)) CRLFCRLF + 4))
             (nat (indexOf (messageBuffer (objects w r)) CRLFCRLF + 4) + n))
          (set_buffer r
             (substring_from (messageBuffer (objects w r))
                (nat (indexOf (messageBuffer (objects w r)) CRLFCRLF + 4) + n)) w))"
  by (subst process_messages.simps) (simp add: Let_def)

subsection \<open>ASCII text is its own encoding\<close>

lemma utf8_scan_ascii: "\<forall>b \<in> set bs. b < 128 \<Longrightarrow> utf8_scan utf8_init bs = bs"
  by (induction bs) (simp_all add: utf8_step_def utf8_lead_def utf8_init_def)

lemma concat_utf16_units: "\<forall>b \<in> set bs. b < 128 \<Longrightarrow> concat (map utf16_units bs) = bs"
  by (induction bs) (simp_all add: utf16_units_def)

lemma toString_ascii: "\<forall>b \<in> set bs. b < 128 \<Longrightarrow> toString bs = bs"
  by (simp add: toString_def utf8_scan_ascii concat_utf16_units)

lemma utf8_encode_ascii: "\<forall>u \<in> set s. u < 128 \<Longrightarrow> utf8_encode s = s"
  by (induction s rule: utf8_encode.induct) simp_all

lemma byteLength_ascii: "\<forall>u \<in> set s. u < 128 \<Longrightarrow> byteLength s = length s"
  by (simp add: byteLength_def utf8_encode_ascii)

subsection \<open>Printing and parsing the length\<close>

lemma decimal_digits: "\<forall>d \<in> set (decimal n). is_digit d"
proof (induction n rule: decimal.induct)
  case (1 n)
  show ?case
  proof (cases "n < 10")
    case True
    then show ?thesis by (subst decimal.simps) (simp add: is_digit_def)
  next
    case False
    have "n mod 10 < 10" by simp
    then have "is_digit (48 + n mod 10)" unfolding is_digit_def by linarith
    with False "1.IH" show ?thesis by (subst decimal.simps) simp
  qed
qed

lemma decimal_nonempty: "decimal n \<noteq> []"
  by (subst decimal.simps) simp

lemma parseInt_digits_snoc: "parseInt_digits (ds @ [d]) = 10 * parseInt_digits ds + (d - 48)"
  by (simp add: parseInt_digits_def)

lemma parseInt_decimal: "parseInt_digits (decimal n) = n"
proof (induction n rule: decimal.induct)
  case (1 n)
  show ?case
  proof (cases "n < 10")
    case True
    then show ?thesis by (subst decimal.simps) (simp add: parseInt_digits_def)
  next
    case False
    with "1.IH" show ?thesis
      by (subst decimal.simps) (simp add: parseInt_digits_snoc)
  qed
qed

lemma not_digit_13: "\<not> is_digit 13"
  by (simp add: is_digit_def)

lemma takeWhile_decimal: "takeWhile is_digit (decimal n @ 13 # xs) = decimal n"
  using decimal_digits [of n] by (simp add: takeWhile_append2 not_digit_13)

lemma dropWhile_decimal: "dropWhile is_digit (decimal n @ 13 # xs) = 13 # xs"
  using decimal_digits [of n] by (simp add: dropWhile_append2 not_digit_13)

subsection \<open>The expression on a header block\<close>

lemma length_content_length_prefix: "length content_length_prefix = 16"
  by (simp add: content_length_prefix_def ascii_def)

lemma match_here_header:
  "match_here (content_length_prefix @ decimal n @ CRLFCRLF @ rest) = Some n"
  by (simp add: match_here_def length_content_length_prefix CRLFCRLF_def takeWhile_decimal
        dropWhile_decimal decimal_nonempty parseInt_decimal)

lemma content_length_match_header:
  "content_length_match (content_length_prefix @ decimal n @ CRLFCRLF @ rest) = Some n"
proof -
  obtain c cs where "content_length_prefix @ decimal n @ CRLFCRLF @ rest = c # cs"
    by (cases "content_length_prefix @ decimal n @ CRLFCRLF @ rest")
       (simp_all add: CRLFCRLF_def)
  moreover from this have "match_here (c # cs) = Some n"
    using match_here_header [of n rest] by simp
  ultimately show ?thesis by simp
qed

text \<open>A match starts with \<open>C\<close> and has the two line ends at its first carriage return.\<close>

lemma match_here_first_CR:
  assumes "match_here s = Some n"
  shows "take 4 (dropWhile (\<lambda>c. c \<noteq> 13) s) = CRLFCRLF"
proof -
  let ?ds = "takeWhile is_digit (drop 16 s)" and ?rest = "dropWhile is_digit (drop 16 s)"
  from assms have p: "take 16 s = content_length_prefix" and r: "take 4 ?rest = CRLFCRLF"
    by (auto simp: match_here_def Let_def split: if_splits)
  have s: "s = take 16 s @ ?ds @ ?rest" by simp
  have "\<forall>c \<in> set (take 16 s @ ?ds). c \<noteq> 13"
  proof
    fix c assume "c \<in> set (take 16 s @ ?ds)"
    then consider "c \<in> set content_length_prefix" | "c \<in> set ?ds" using p by auto
    then show "c \<noteq> 13"
    proof cases
      case 1
      then show ?thesis by (auto simp: content_length_prefix_def ascii_def)
    next
      case 2
      then have "is_digit c" by (rule set_takeWhileD [THEN conjunct2])
      then show ?thesis by (auto simp: is_digit_def)
    qed
  qed
  then have e: "dropWhile (\<lambda>c. c \<noteq> 13) ((take 16 s @ ?ds) @ ?rest) = dropWhile (\<lambda>c. c \<noteq> 13) ?rest"
    by (intro dropWhile_append2) auto
  have "dropWhile (\<lambda>c. c \<noteq> 13) s = dropWhile (\<lambda>c. c \<noteq> 13) ?rest"
    using e by simp
  moreover from r obtain t where "?rest = 13 # t"
    by (cases ?rest) (auto simp: CRLFCRLF_def)
  ultimately have "dropWhile (\<lambda>c. c \<noteq> 13) s = ?rest"
    by simp
  with r show ?thesis by simp
qed

lemma match_here_line:
  assumes "13 \<notin> set h" and "y \<noteq> 13"
  shows "match_here (h @ 13 # 10 # y # ys) = None"
proof (rule ccontr)
  assume "match_here (h @ 13 # 10 # y # ys) \<noteq> None"
  then obtain n where "match_here (h @ 13 # 10 # y # ys) = Some n" by auto
  from match_here_first_CR [OF this]
  have "take 4 (dropWhile (\<lambda>c. c \<noteq> 13) (h @ 13 # 10 # y # ys)) = CRLFCRLF" .
  moreover have "dropWhile (\<lambda>c. c \<noteq> 13) (h @ 13 # 10 # y # ys) = 13 # 10 # y # ys"
    using assms(1) by (subst dropWhile_append2) auto
  ultimately show False using assms(2) by (simp add: CRLFCRLF_def)
qed

lemma match_here_LF: "match_here (10 # ys) = None"
  by (simp add: match_here_def content_length_prefix_def ascii_def)

lemma content_length_match_line:
  assumes "13 \<notin> set h" and "y \<noteq> 13"
  shows "content_length_match (h @ 13 # 10 # y # ys) = content_length_match (y # ys)"
  using assms(1)
proof (induction h)
  case Nil
  have "match_here (13 # 10 # y # ys) = None"
    using match_here_line [of "[]" y ys] assms(2) by simp
  then show ?case by (simp add: match_here_LF)
next
  case (Cons c h)
  then have "match_here ((c # h) @ 13 # 10 # y # ys) = None"
    by (intro match_here_line assms(2)) simp
  with Cons show ?case by simp
qed

lemma header_lines_simps:
  "header_lines [] = []"
  "header_lines (h # hs) = h @ 13 # 10 # header_lines hs"
  by (simp_all add: header_lines_def)

lemma header_lines_then:
  assumes "\<forall>h \<in> set hs. h \<noteq> [] \<and> 13 \<notin> set h" and "x \<noteq> 13"
  shows "\<exists>y ys. header_lines hs @ x # xs = y # ys \<and> y \<noteq> 13"
proof (cases hs)
  case Nil
  with assms(2) show ?thesis by (simp add: header_lines_simps)
next
  case (Cons h hs')
  with assms(1) obtain c cs where "h = c # cs" "c \<noteq> 13" by (cases h) auto
  with Cons show ?thesis by (simp add: header_lines_simps)
qed

lemma content_length_match_lines:
  assumes "\<forall>h \<in> set hs. h \<noteq> [] \<and> 13 \<notin> set h" and "x \<noteq> 13"
  shows "content_length_match (header_lines hs @ x # xs) = content_length_match (x # xs)"
  using assms(1)
proof (induction hs)
  case Nil
  show ?case by (simp add: header_lines_simps)
next
  case (Cons h hs)
  then have hs: "\<forall>h \<in> set hs. h \<noteq> [] \<and> 13 \<notin> set h" and h: "13 \<notin> set h" by simp_all
  from header_lines_then [OF hs assms(2), of xs]
  obtain y ys where y: "header_lines hs @ x # xs = y # ys" "y \<noteq> 13" by blast
  have "content_length_match (header_lines (h # hs) @ x # xs)
          = content_length_match (h @ 13 # 10 # y # ys)"
    by (simp add: header_lines_simps y(1))
  also have "\<dots> = content_length_match (y # ys)"
    by (rule content_length_match_line [OF h y(2)])
  also have "\<dots> = content_length_match (x # xs)"
    using Cons.IH [OF hs] y(1) by simp
  finally show ?case .
qed

subsection \<open>\<open>indexOf\<close> on a header block\<close>

declare indexOf.simps [simp del]

lemma indexOf_Cons_other:
  "c \<noteq> 13 \<Longrightarrow> 0 \<le> indexOf cs CRLFCRLF \<Longrightarrow> indexOf (c # cs) CRLFCRLF = indexOf cs CRLFCRLF + 1"
  by (simp add: indexOf.simps CRLFCRLF_def Let_def)

lemma indexOf_here: "indexOf (CRLFCRLF @ rest) CRLFCRLF = 0"
  by (simp add: indexOf.simps CRLFCRLF_def)

lemma indexOf_no_CR:
  "13 \<notin> set a \<Longrightarrow> indexOf (a @ CRLFCRLF @ rest) CRLFCRLF = int (length a)"
proof (induction a)
  case Nil
  show ?case by (simp add: indexOf_here)
next
  case (Cons c a)
  then have "indexOf (a @ CRLFCRLF @ rest) CRLFCRLF = int (length a)" by simp
  with Cons.prems show ?case by (simp add: indexOf_Cons_other)
qed

lemma indexOf_line:
  assumes "13 \<notin> set h" and "y \<noteq> 13" and "0 \<le> indexOf (y # ys) CRLFCRLF"
  shows "indexOf (h @ 13 # 10 # y # ys) CRLFCRLF = int (length h) + 2 + indexOf (y # ys) CRLFCRLF"
  using assms(1)
proof (induction h)
  case Nil
  have "indexOf (10 # y # ys) CRLFCRLF = indexOf (y # ys) CRLFCRLF + 1"
    using assms(3) by (simp add: indexOf_Cons_other)
  moreover have "take 4 (13 # 10 # y # ys) \<noteq> CRLFCRLF"
    using assms(2) by (simp add: CRLFCRLF_def)
  ultimately show ?case
    using assms(3) by (simp add: indexOf.simps(2) [of 13] Let_def CRLFCRLF_def)
next
  case (Cons c h)
  then have ih: "indexOf (h @ 13 # 10 # y # ys) CRLFCRLF
                   = int (length h) + 2 + indexOf (y # ys) CRLFCRLF" by simp
  with assms(3) have "0 \<le> indexOf (h @ 13 # 10 # y # ys) CRLFCRLF" by simp
  with Cons.prems ih show ?case by (simp add: indexOf_Cons_other)
qed

lemma indexOf_lines:
  assumes "\<forall>h \<in> set hs. h \<noteq> [] \<and> 13 \<notin> set h" and "x \<noteq> 13"
    and "0 \<le> indexOf (x # xs) CRLFCRLF"
  shows "indexOf (header_lines hs @ x # xs) CRLFCRLF
           = int (length (header_lines hs)) + indexOf (x # xs) CRLFCRLF"
  using assms(1)
proof (induction hs)
  case Nil
  show ?case by (simp add: header_lines_simps)
next
  case (Cons h hs)
  then have hs: "\<forall>h \<in> set hs. h \<noteq> [] \<and> 13 \<notin> set h" and h: "13 \<notin> set h" by simp_all
  from header_lines_then [OF hs assms(2), of xs]
  obtain y ys where y: "header_lines hs @ x # xs = y # ys" "y \<noteq> 13" by blast
  have ih: "indexOf (y # ys) CRLFCRLF = int (length (header_lines hs)) + indexOf (x # xs) CRLFCRLF"
    using Cons.IH [OF hs] y(1) by simp
  with assms(3) have nn: "0 \<le> indexOf (y # ys) CRLFCRLF" by simp
  have "indexOf (header_lines (h # hs) @ x # xs) CRLFCRLF = indexOf (h @ 13 # 10 # y # ys) CRLFCRLF"
    by (simp add: header_lines_simps y(1))
  also have "\<dots> = int (length h) + 2 + indexOf (y # ys) CRLFCRLF"
    by (rule indexOf_line [OF h y(2) nn])
  finally show ?case by (simp add: ih header_lines_simps)
qed

lemma take_eq_length: "take (length p) xs = p \<Longrightarrow> length p \<le> length xs"
proof -
  assume "take (length p) xs = p"
  then have "length (take (length p) xs) = length p" by simp
  then show ?thesis by (simp add: min_def split: if_splits)
qed

lemma take_append_long: "length p \<le> length xs \<Longrightarrow> take (length p) (xs @ t) = take (length p) xs"
  by simp

lemma indexOf_bound: "0 \<le> indexOf s p \<Longrightarrow> nat (indexOf s p) + length p \<le> length s"
proof (induction s)
  case Nil
  then show ?case by (simp add: indexOf.simps split: if_splits)
next
  case (Cons c cs)
  show ?case
  proof (cases "take (length p) (c # cs) = p")
    case True
    then have "length p \<le> length (c # cs)"
      by (rule take_eq_length)
    with True show ?thesis by (simp add: indexOf.simps)
  next
    case False
    with Cons.prems have nn: "0 \<le> indexOf cs p"
      by (simp add: indexOf.simps Let_def split: if_splits)
    with False have "indexOf (c # cs) p = indexOf cs p + 1"
      by (simp add: indexOf.simps Let_def)
    with Cons.IH [OF nn] nn show ?thesis by simp
  qed
qed

lemma indexOf_append: "0 \<le> indexOf s p \<Longrightarrow> indexOf (s @ t) p = indexOf s p"
proof (induction s)
  case Nil
  then have "p = []" by (simp add: indexOf.simps split: if_splits)
  then show ?case by (cases t) (simp_all add: indexOf.simps)
next
  case (Cons c cs)
  have same: "take (length p) (c # cs @ t) = take (length p) (c # cs)"
    if "length p \<le> length (c # cs)"
    using take_append_long [OF that, of t] by simp
  show ?case
  proof (cases "take (length p) (c # cs) = p")
    case True
    then have "length p \<le> length (c # cs)"
      by (rule take_eq_length)
    with True same have "take (length p) (c # cs @ t) = p" by simp
    with True show ?thesis by (simp add: indexOf.simps)
  next
    case False
    with Cons.prems have nn: "0 \<le> indexOf cs p"
      by (simp add: indexOf.simps Let_def split: if_splits)
    from indexOf_bound [OF nn] have "length p \<le> length (c # cs)" by simp
    with False same have "take (length p) (c # cs @ t) \<noteq> p" by simp
    with False Cons.IH [OF nn] nn show ?thesis by (simp add: indexOf.simps Let_def)
  qed
qed

lemma indexOf_occurs: "0 \<le> indexOf (a @ CRLFCRLF @ b) CRLFCRLF"
proof (induction a)
  case Nil
  show ?case by (simp add: indexOf_here)
next
  case (Cons c a)
  then show ?case by (simp add: indexOf.simps Let_def)
qed

lemma match_here_occurs:
  assumes "match_here s = Some n"
  shows "0 \<le> indexOf s CRLFCRLF"
proof -
  let ?ds = "takeWhile is_digit (drop 16 s)" and ?rest = "dropWhile is_digit (drop 16 s)"
  from assms have r: "take 4 ?rest = CRLFCRLF"
    by (auto simp: match_here_def Let_def split: if_splits)
  have "?rest = take 4 ?rest @ drop 4 ?rest" by simp
  with r have "?rest = CRLFCRLF @ drop 4 ?rest" by simp
  moreover have "s = (take 16 s @ ?ds) @ ?rest" by simp
  ultimately have "s = (take 16 s @ ?ds) @ CRLFCRLF @ drop 4 ?rest" by simp
  then obtain a b where "s = a @ CRLFCRLF @ b" by blast
  then show ?thesis by (simp add: indexOf_occurs)
qed

lemma content_length_match_occurs:
  "content_length_match s = Some n \<Longrightarrow> 0 \<le> indexOf s CRLFCRLF"
proof (induction s)
  case Nil
  then show ?case by simp
next
  case (Cons c cs)
  show ?case
  proof (cases "match_here (c # cs)")
    case None
    with Cons have "0 \<le> indexOf cs CRLFCRLF" by simp
    then show ?thesis by (simp add: indexOf.simps Let_def)
  next
    case (Some m)
    then show ?thesis by (rule match_here_occurs)
  qed
qed

subsection \<open>The header of a frame\<close>

lemma framed_header: "framed hs p = frame_header hs (byteLength p) @ p"
  by (simp add: framed_def frame_header_def header_lines_def frame_message_def)

lemma content_length_prefix_Cons:
  "content_length_prefix = 67 # tl content_length_prefix"
  by (simp add: content_length_prefix_def ascii_def)

lemma no_CR_in_prefix: "13 \<notin> set (content_length_prefix @ decimal n)"
proof -
  have "13 \<notin> set content_length_prefix"
    by (simp add: content_length_prefix_def ascii_def)
  moreover have "13 \<notin> set (decimal n)"
    using decimal_digits [of n] not_digit_13 by blast
  ultimately show ?thesis by simp
qed

lemma frame_header_match:
  assumes "\<forall>h \<in> set hs. h \<noteq> [] \<and> 13 \<notin> set h"
  shows "content_length_match (frame_header hs n @ rest) = Some n"
proof -
  let ?xs = "tl content_length_prefix @ decimal n @ CRLFCRLF @ rest"
  have e: "content_length_prefix @ decimal n @ CRLFCRLF @ rest = 67 # ?xs"
    using content_length_prefix_Cons by (metis append_Cons)
  have "content_length_match (frame_header hs n @ rest)
          = content_length_match (header_lines hs @ 67 # ?xs)"
    by (simp add: frame_header_def e)
  also have "\<dots> = content_length_match (67 # ?xs)"
    by (rule content_length_match_lines [OF assms]) simp
  also have "\<dots> = Some n"
    using content_length_match_header [of n rest] e by simp
  finally show ?thesis .
qed

lemma frame_header_index:
  assumes "\<forall>h \<in> set hs. h \<noteq> [] \<and> 13 \<notin> set h"
  shows "indexOf (frame_header hs n @ rest) CRLFCRLF + 4 = int (length (frame_header hs n))"
proof -
  let ?xs = "tl content_length_prefix @ decimal n @ CRLFCRLF @ rest"
  have e: "content_length_prefix @ decimal n @ CRLFCRLF @ rest = 67 # ?xs"
    using content_length_prefix_Cons by (metis append_Cons)
  have i: "indexOf (67 # ?xs) CRLFCRLF = int (length (content_length_prefix @ decimal n))"
    using indexOf_no_CR [OF no_CR_in_prefix, of n rest] e by simp
  have "indexOf (frame_header hs n @ rest) CRLFCRLF = indexOf (header_lines hs @ 67 # ?xs) CRLFCRLF"
    by (simp add: frame_header_def e)
  also have "\<dots> = int (length (header_lines hs)) + indexOf (67 # ?xs) CRLFCRLF"
    by (rule indexOf_lines [OF assms]) (simp_all add: i)
  finally have "indexOf (frame_header hs n @ rest) CRLFCRLF
                  = int (length (header_lines hs)) + int (length (content_length_prefix @ decimal n))"
    by (simp only: i)
  moreover have "length CRLFCRLF = 4" by (simp add: CRLFCRLF_def)
  ultimately show ?thesis
    by (simp add: frame_header_def)
qed

lemma frame_header_start:
  assumes "\<forall>h \<in> set hs. h \<noteq> [] \<and> 13 \<notin> set h"
  shows "nat (indexOf (frame_header hs n @ rest) CRLFCRLF + 4) = length (frame_header hs n)"
  using frame_header_index [OF assms, of n rest] by simp

lemma frame_header_prefix_no_match:
  assumes "\<forall>h \<in> set hs. h \<noteq> [] \<and> 13 \<notin> set h"
    and "frame_header hs n = a @ q" and "q \<noteq> []"
  shows "content_length_match a = None"
proof (cases "content_length_match a")
  case None
  then show ?thesis .
next
  case (Some m)
  then have nn: "0 \<le> indexOf a CRLFCRLF" by (rule content_length_match_occurs)
  from indexOf_bound [OF nn] have b: "nat (indexOf a CRLFCRLF) + 4 \<le> length a"
    by (simp add: CRLFCRLF_def)
  from indexOf_append [OF nn, of q] assms(2)
  have "indexOf (frame_header hs n) CRLFCRLF = indexOf a CRLFCRLF" by simp
  moreover from frame_header_index [OF assms(1), of n "[]"] assms(2)
  have "indexOf (frame_header hs n) CRLFCRLF + 4 = int (length a + length q)" by simp
  ultimately have "indexOf a CRLFCRLF + 4 = int (length a + length q)" by simp
  with b nn assms(3) have False by (cases q) simp_all
  then show ?thesis ..
qed

subsection \<open>The handlers leave the buffer alone\<close>

lemma set_buffer_fields:
  "lspServers (set_buffer r b w) = lspServers w"
  "promises (set_buffer r b w) = promises w"
  "mainWindowAlive (set_buffer r b w) = mainWindowAlive w"
  "diagnosticsSent (set_buffer r b w) = diagnosticsSent w"
  "consoleErrors (set_buffer r b w) = consoleErrors w"
  "pendingRequests (objects (set_buffer r b w) q) = pendingRequests (objects w q)"
  "messageBuffer (objects (set_buffer r b w) r) = b"
  by (simp_all add: set_buffer_def update_object_def)

lemma set_buffer_twice: "set_buffer r b (set_buffer r b' w) = set_buffer r b w"
  by (simp add: set_buffer_def update_object_def)

lemma set_buffer_same: "messageBuffer (objects w r) = b \<Longrightarrow> set_buffer r b w = w"
  by (auto simp add: set_buffer_def update_object_def)

lemma settle_set_buffer: "settle h outcome (set_buffer r b w) = set_buffer r b (settle h outcome w)"
  by (simp add: settle_def set_buffer_def update_object_def)

lemma console_error_set_buffer: "console_error e (set_buffer r b w) = set_buffer r b (console_error e w)"
  by (simp add: console_error_def set_buffer_def update_object_def)

lemma buffer_pending_commute:
  "sd\<lparr>messageBuffer := b, pendingRequests := x\<rparr> = sd\<lparr>pendingRequests := x, messageBuffer := b\<rparr>"
  by (cases sd) simp

lemma update_pending_set_buffer:
  "update_object q (\<lambda>sd. sd\<lparr>pendingRequests := pending_delete (pendingRequests sd) v\<rparr>)
     (set_buffer r b w)
   = set_buffer r b
       (update_object q (\<lambda>sd. sd\<lparr>pendingRequests := pending_delete (pendingRequests sd) v\<rparr>) w)"
  by (cases "q = r")
     (simp_all add: set_buffer_def update_object_def fun_upd_twist buffer_pending_commute)

lemma handle_response_set_buffer:
  "handle_response q m (set_buffer r b w) = set_buffer r b (handle_response q m w)"
  by (simp add: handle_response_def set_buffer_fields Let_def resolve_def reject_def
        settle_set_buffer update_pending_set_buffer split: option.splits)

lemma handle_notification_set_buffer:
  "handle_notification sid m (set_buffer r b w) = set_buffer r b (handle_notification sid m w)"
  by (simp add: handle_notification_def set_buffer_def update_object_def)

lemma receive_message_set_buffer:
  "receive_message sid m (set_buffer r b w) = set_buffer r b (receive_message sid m w)"
  by (simp add: receive_message_def handleLSPMessage_def set_buffer_fields
        handle_response_set_buffer handle_notification_set_buffer console_error_set_buffer
        split: option.splits)

lemma deliver_set_buffer:
  "deliver parse sid c (set_buffer r b w) = set_buffer r b (deliver parse sid c w)"
  by (simp add: deliver_def receive_message_set_buffer console_error_set_buffer
        split: option.splits)

lemma fold_deliver_set_buffer:
  "fold (deliver parse sid) ps (set_buffer r b w) = set_buffer r b (fold (deliver parse sid) ps w)"
  by (induction ps arbitrary: w) (simp_all add: deliver_set_buffer)

subsection \<open>Frames, and chunks that cut them anywhere\<close>

lemma stream_simps:
  "stream [] = []"
  "stream (f # fs) = framed (fst f) (snd f) @ stream fs"
  "stream (fs @ gs) = stream fs @ stream gs"
  by (simp_all add: stream_def)

lemma framed_nonempty: "framed hs p \<noteq> []"
  by (simp add: framed_header frame_header_def CRLFCRLF_def)

lemma frame_payload_length: "valid_frame (hs, p) \<Longrightarrow> byteLength p = length p"
  by (simp add: valid_frame_def byteLength_ascii)

lemma idle_on_partial_frame:
  assumes v: "valid_frame (hs, p)" and f: "framed hs p = part @ q" and q: "q \<noteq> []"
    and b: "messageBuffer (objects w r) = part"
  shows "process_messages parse r sid w = w"
proof -
  let ?H = "frame_header hs (length p)"
  from v have hs: "\<forall>h \<in> set hs. h \<noteq> [] \<and> 13 \<notin> set h" by (simp add: valid_frame_def)
  from f have e: "?H @ p = part @ q"
    by (simp add: framed_header frame_payload_length [OF v])
  then obtain us where us: "(?H = part @ us \<and> us @ p = q) \<or> (?H @ us = part \<and> p = us @ q)"
    by (auto simp: append_eq_append_conv2)
  have "(\<exists>vs. ?H = part @ vs \<and> vs \<noteq> []) \<or> (\<exists>vs. ?H @ vs = part \<and> p = vs @ q)"
  proof (cases "us = []")
    case True
    with us have "?H @ [] = part \<and> p = [] @ q" by auto
    then show ?thesis by blast
  next
    case False
    with us show ?thesis by blast
  qed
  then consider vs where "?H = part @ vs" "vs \<noteq> []" | vs where "?H @ vs = part" "p = vs @ q"
    by blast
  then show ?thesis
  proof cases
    case 1
    from frame_header_prefix_no_match [OF hs 1(1) 1(2)]
    have "content_length_match (messageBuffer (objects w r)) = None" by (simp add: b)
    then show ?thesis by (rule process_messages_no_match)
  next
    case 2
    have m: "content_length_match (messageBuffer (objects w r)) = Some (length p)"
      using frame_header_match [OF hs, of "length p" vs] 2(1) by (simp add: b)
    have s: "nat (indexOf part CRLFCRLF + 4) = length ?H"
      using frame_header_start [OF hs, of "length p" vs] 2(1) by simp
    have "length part < length ?H + length p"
      using 2 q by (cases q) auto
    then show ?thesis
      by (intro process_messages_incomplete [OF m]) (simp add: s b)
  qed
qed

lemma idle_on_empty:
  "messageBuffer (objects w r) = [] \<Longrightarrow> process_messages parse r sid w = w"
  by (rule process_messages_no_match) simp

lemma extract_one_frame:
  assumes v: "valid_frame (hs, p)" and b: "messageBuffer (objects w r) = framed hs p @ rest"
  shows "process_messages parse r sid w =
           process_messages parse r sid (deliver parse sid p (set_buffer r rest w))"
proof -
  let ?H = "frame_header hs (length p)"
  from v have hs: "\<forall>h \<in> set hs. h \<noteq> [] \<and> 13 \<notin> set h" by (simp add: valid_frame_def)
  have e: "messageBuffer (objects w r) = ?H @ p @ rest"
    by (simp add: b framed_header frame_payload_length [OF v])
  have m: "content_length_match (messageBuffer (objects w r)) = Some (length p)"
    using frame_header_match [OF hs, of "length p" "p @ rest"] by (simp add: e)
  have s: "nat (indexOf (messageBuffer (objects w r)) CRLFCRLF + 4) = length ?H"
    using frame_header_start [OF hs, of "length p" "p @ rest"] by (simp add: e)
  have l: "nat (indexOf (messageBuffer (objects w r)) CRLFCRLF + 4) + length p
             \<le> length (messageBuffer (objects w r))"
    by (simp add: s) (simp add: e)
  have c: "substring (messageBuffer (objects w r)) (length ?H) (length ?H + length p) = p"
    by (simp add: substring_def e)
  have d: "substring_from (messageBuffer (objects w r)) (length ?H + length p) = rest"
    by (simp add: substring_from_def e)
  from process_messages_extract [OF m l, of parse sid] show ?thesis
    by (simp only: s c d)
qed

lemma process_frames:
  assumes "\<forall>f \<in> set fs. valid_frame f"
    and "part = [] \<or> (\<exists>f q. valid_frame f \<and> q \<noteq> [] \<and> framed (fst f) (snd f) = part @ q)"
    and "messageBuffer (objects w r) = stream fs @ part"
  shows "process_messages parse r sid w
           = set_buffer r part (fold (deliver parse sid) (map snd fs) w)"
  using assms(1,3)
proof (induction fs arbitrary: w)
  case Nil
  then have b: "messageBuffer (objects w r) = part" by (simp add: stream_simps)
  have "process_messages parse r sid w = w"
  proof (cases "part = []")
    case True
    with b show ?thesis by (simp add: idle_on_empty)
  next
    case False
    with assms(2) obtain f q where "valid_frame f" "q \<noteq> []" "framed (fst f) (snd f) = part @ q"
      by blast
    then show ?thesis
      using idle_on_partial_frame [of "fst f" "snd f" part q w r parse sid] b by simp
  qed
  then show ?case by (simp add: set_buffer_same [OF b])
next
  case (Cons f fs)
  obtain hs p where f: "f = (hs, p)" by (cases f)
  let ?rest = "stream fs @ part"
  let ?w1 = "deliver parse sid p (set_buffer r ?rest w)"
  from Cons.prems(1) have v: "valid_frame (hs, p)" and vs: "\<forall>f \<in> set fs. valid_frame f"
    by (simp_all add: f)
  from Cons.prems(2) have b: "messageBuffer (objects w r) = framed hs p @ ?rest"
    by (simp add: stream_simps f)
  have b1: "messageBuffer (objects ?w1 r) = ?rest"
    by (simp add: deliver_buffer set_buffer_fields)
  have "process_messages parse r sid w = process_messages parse r sid ?w1"
    by (rule extract_one_frame [OF v b])
  also have "\<dots> = set_buffer r part (fold (deliver parse sid) (map snd fs) ?w1)"
    by (rule Cons.IH [OF vs b1])
  also have "\<dots> = set_buffer r part (fold (deliver parse sid) (map snd (f # fs)) w)"
    by (simp add: f deliver_set_buffer fold_deliver_set_buffer set_buffer_twice)
  finally show ?case .
qed

lemma prefix_of_concat:
  "a @ b = concat xss \<Longrightarrow>
   \<exists>k part. k \<le> length xss \<and> a = concat (take k xss) @ part
     \<and> (part = [] \<or> (k < length xss \<and> (\<exists>q. q \<noteq> [] \<and> xss ! k = part @ q)))"
proof (induction xss arbitrary: a)
  case Nil
  then show ?case by simp
next
  case (Cons x xss)
  from Cons.prems have "a @ b = x @ concat xss" by simp
  then obtain us where us: "(a = x @ us \<and> us @ b = concat xss) \<or> (a @ us = x \<and> b = us @ concat xss)"
    by (auto simp: append_eq_append_conv2)
  show ?case
  proof (cases "\<exists>vs. a = x @ vs \<and> vs @ b = concat xss")
    case True
    then obtain vs where a: "a = x @ vs" and vs: "vs @ b = concat xss" by blast
    from Cons.IH [OF vs] obtain k part where k: "k \<le> length xss"
      and e: "vs = concat (take k xss) @ part"
      and c: "part = [] \<or> (k < length xss \<and> (\<exists>q. q \<noteq> [] \<and> xss ! k = part @ q))"
      by blast
    have "Suc k \<le> length (x # xss)" using k by simp
    moreover have "a = concat (take (Suc k) (x # xss)) @ part" using a e by simp
    moreover have "part = [] \<or> (Suc k < length (x # xss) \<and> (\<exists>q. q \<noteq> [] \<and> (x # xss) ! Suc k = part @ q))"
      using c by simp
    ultimately show ?thesis by blast
  next
    case False
    with us have x: "a @ us = x" and "us \<noteq> []" by auto
    have "0 \<le> length (x # xss)" by simp
    moreover have "a = concat (take 0 (x # xss)) @ a" by simp
    moreover have "a = [] \<or> (0 < length (x # xss) \<and> (\<exists>q. q \<noteq> [] \<and> (x # xss) ! 0 = a @ q))"
      using x \<open>us \<noteq> []\<close> by auto
    ultimately show ?thesis by blast
  qed
qed

lemma prefix_of_stream:
  assumes "a @ b = stream fs"
  shows "\<exists>k part. k \<le> length fs \<and> a = stream (take k fs) @ part
     \<and> (part = [] \<or> (k < length fs
           \<and> (\<exists>q. q \<noteq> [] \<and> framed (fst (fs ! k)) (snd (fs ! k)) = part @ q)))"
proof -
  let ?xss = "map (\<lambda>f. framed (fst f) (snd f)) fs"
  from assms have "a @ b = concat ?xss" by (simp add: stream_def)
  from prefix_of_concat [OF this]
  obtain k part where k: "k \<le> length ?xss" and a: "a = concat (take k ?xss) @ part"
    and c: "part = [] \<or> (k < length ?xss \<and> (\<exists>q. q \<noteq> [] \<and> ?xss ! k = part @ q))"
    by blast
  have "k \<le> length fs" using k by simp
  moreover have "a = stream (take k fs) @ part" using a by (simp add: stream_def take_map)
  moreover have "part = [] \<or> (k < length fs
           \<and> (\<exists>q. q \<noteq> [] \<and> framed (fst (fs ! k)) (snd (fs ! k)) = part @ q))"
    using c by auto
  ultimately show ?thesis by blast
qed

lemma stream_take_drop: "stream (take k fs) @ stream (drop k fs) = stream fs"
  by (simp add: stream_simps(3) [symmetric])

lemma stdout_on_data_ascii:
  assumes "\<forall>b \<in> set c. b < 128" and "messageBuffer (objects w r) = part"
  shows "stdout_on_data parse r sid c w = process_messages parse r sid (set_buffer r (part @ c) w)"
  using assms
  by (simp add: stdout_on_data_def toString_ascii set_buffer_def update_object_def)

lemma feed_chunks:
  assumes "\<forall>f \<in> set fs. valid_frame f"
    and "\<forall>c \<in> set chunks. \<forall>b \<in> set c. b < 128"
    and "messageBuffer (objects w r) = part"
    and "part = [] \<or> (fs \<noteq> [] \<and> (\<exists>q. q \<noteq> [] \<and> framed (fst (hd fs)) (snd (hd fs)) = part @ q))"
    and "part @ concat chunks = stream fs"
  shows "fold (stdout_on_data parse r sid) chunks w
           = set_buffer r [] (fold (deliver parse sid) (map snd fs) w)"
  using assms
proof (induction chunks arbitrary: w part fs)
  case Nil
  then have p: "part = stream fs" by simp
  have "fs = []"
  proof (rule ccontr)
    assume ne: "fs \<noteq> []"
    then obtain f fs' where fs: "fs = f # fs'" by (cases fs) auto
    with p framed_nonempty [of "fst f" "snd f"] have "part \<noteq> []"
      by (simp add: stream_simps)
    with Nil.prems(4) obtain q where "q \<noteq> []" "framed (fst (hd fs)) (snd (hd fs)) = part @ q"
      by blast
    with p fs have "length (framed (fst f) (snd f))
        = length (framed (fst f) (snd f)) + length (stream fs') + length q"
      by (simp add: stream_simps)
    with \<open>q \<noteq> []\<close> show False by simp
  qed
  with p Nil.prems(3) show ?case
    by (simp add: stream_simps set_buffer_same)
next
  case (Cons c chunks)
  let ?w0 = "set_buffer r (part @ c) w"
  from Cons.prems(2) have ca: "\<forall>b \<in> set c. b < 128" and cs: "\<forall>c \<in> set chunks. \<forall>b \<in> set c. b < 128"
    by simp_all
  have split: "(part @ c) @ concat chunks = stream fs"
    using Cons.prems(5) by simp
  from prefix_of_stream [OF split]
  obtain k part' where k: "k \<le> length fs"
    and e: "part @ c = stream (take k fs) @ part'"
    and c': "part' = [] \<or> (k < length fs \<and> (\<exists>q. q \<noteq> [] \<and> framed (fst (fs ! k)) (snd (fs ! k)) = part' @ q))"
    by blast
  let ?ps1 = "map snd (take k fs)" and ?ps2 = "map snd (drop k fs)"
  let ?w1 = "set_buffer r part' (fold (deliver parse sid) ?ps1 ?w0)"
  have v1: "\<forall>f \<in> set (take k fs). valid_frame f"
    using Cons.prems(1) by (auto dest: in_set_takeD)
  have v2: "\<forall>f \<in> set (drop k fs). valid_frame f"
    using Cons.prems(1) by (auto dest: in_set_dropD)
  have idle: "part' = [] \<or> (\<exists>f q. valid_frame f \<and> q \<noteq> [] \<and> framed (fst f) (snd f) = part' @ q)"
  proof (cases "part' = []")
    case True
    then show ?thesis by simp
  next
    case False
    with c' obtain q where "k < length fs" "q \<noteq> []" "framed (fst (fs ! k)) (snd (fs ! k)) = part' @ q"
      by blast
    moreover from this Cons.prems(1) have "valid_frame (fs ! k)" by simp
    ultimately show ?thesis by blast
  qed
  have b0: "messageBuffer (objects ?w0 r) = stream (take k fs) @ part'"
    by (simp add: set_buffer_fields e)
  have step: "stdout_on_data parse r sid c w = ?w1"
    using stdout_on_data_ascii [OF ca Cons.prems(3), of parse sid]
          process_frames [OF v1 idle b0, of parse sid]
    by simp
  have b1: "messageBuffer (objects ?w1 r) = part'"
    by (simp add: set_buffer_fields)
  have next_frame: "part' = [] \<or> (drop k fs \<noteq> [] \<and>
        (\<exists>q. q \<noteq> [] \<and> framed (fst (hd (drop k fs))) (snd (hd (drop k fs))) = part' @ q))"
  proof (cases "part' = []")
    case True
    then show ?thesis by simp
  next
    case False
    with c' obtain q where "k < length fs" "q \<noteq> []" "framed (fst (fs ! k)) (snd (fs ! k)) = part' @ q"
      by blast
    then show ?thesis by (auto simp: hd_drop_conv_nth)
  qed
  have rest: "part' @ concat chunks = stream (drop k fs)"
  proof -
    have "stream (take k fs) @ part' @ concat chunks = stream (take k fs) @ stream (drop k fs)"
      using Cons.prems(5) e by (simp add: stream_take_drop) (metis append.assoc)
    then show ?thesis by simp
  qed
  have "fold (stdout_on_data parse r sid) (c # chunks) w
          = fold (stdout_on_data parse r sid) chunks ?w1"
    by (simp add: step)
  also have "\<dots> = set_buffer r [] (fold (deliver parse sid) ?ps2 ?w1)"
    by (rule Cons.IH [OF v2 cs b1 next_frame rest])
  also have "\<dots> = set_buffer r [] (fold (deliver parse sid) (?ps1 @ ?ps2) w)"
    by (simp add: fold_deliver_set_buffer set_buffer_twice)
  also have "?ps1 @ ?ps2 = map snd fs"
    by (simp add: map_append [symmetric] del: map_append)
  finally show ?case .
qed

lemma fold_deliver_buffer:
  "messageBuffer (objects (fold (deliver parse sid) ps w) r) = messageBuffer (objects w r)"
  by (induction ps arbitrary: w) (simp_all add: deliver_buffer)

lemma payload_in_stream: "f \<in> set fs \<Longrightarrow> set (snd f) \<subseteq> set (stream fs)"
  by (induction fs) (auto simp: stream_simps framed_header)

lemma feed_stream:
  assumes chunks: "concat chunks = stream fs"
    and ascii: "\<forall>b \<in> set (concat chunks). b < 128"
    and lines: "\<forall>f \<in> set fs. \<forall>h \<in> set (fst f). h \<noteq> [] \<and> 13 \<notin> set h"
    and empty: "messageBuffer (objects w r) = []"
  shows "fold (stdout_on_data parse r sid) chunks w = fold (deliver parse sid) (map snd fs) w"
proof -
  have v: "\<forall>f \<in> set fs. valid_frame f"
  proof
    fix f assume f: "f \<in> set fs"
    from payload_in_stream [OF f] chunks ascii have "\<forall>u \<in> set (snd f). u < 128" by auto
    with lines f show "valid_frame f" by (simp add: valid_frame_def)
  qed
  have c: "\<forall>c \<in> set chunks. \<forall>b \<in> set c. b < 128" using ascii by auto
  have "fold (stdout_on_data parse r sid) chunks w
          = set_buffer r [] (fold (deliver parse sid) (map snd fs) w)"
    by (rule feed_chunks [OF v c empty]) (simp_all add: chunks)
  also have "\<dots> = fold (deliver parse sid) (map snd fs) w"
    by (rule set_buffer_same) (simp add: fold_deliver_buffer empty)
  finally show ?thesis .
qed

lemma fold_deliver_parsed:
  "map (\<lambda>f. parse (snd f)) fs = map Some vs \<Longrightarrow>
   fold (deliver parse sid) (map snd fs) w = fold (receive_message sid) vs w"
proof (induction fs arbitrary: vs w)
  case Nil
  then show ?case by simp
next
  case (Cons f fs)
  from Cons.prems obtain v vs' where vs: "vs = v # vs'" by (cases vs) auto
  with Cons.prems have p: "parse (snd f) = Some v"
    and rest: "map (\<lambda>f. parse (snd f)) fs = map Some vs'"
    by simp_all
  from Cons.IH [OF rest] show ?case by (simp add: vs deliver_def p)
qed

subsection \<open>What the handlers log\<close>














subsection \<open>Streams of frames\<close>

text \<open>
  Claim C1, amended. Let the chunks fed to one server, which starts with an empty buffer,
  concatenate to a sequence of messages, each made of any number of extra header lines
  (not empty, without a carriage return), then the \<open>Content-Length\<close> line as the last
  header line, the empty line, and the payload, with the byte length of the payload as the
  announced length; let every byte be ASCII, and let every payload parse. Then, whatever
  the chunk boundaries, the result of feeding the chunks is the result of handing exactly
  the decoded values, in order, to the handler, and the buffer is empty at the end.
\<close>

theorem framed_stream_decodes_in_order:
  assumes "concat chunks = stream fs"
    and "\<forall>b \<in> set (concat chunks). b < 128"
    and "\<forall>f \<in> set fs. \<forall>h \<in> set (fst f). h \<noteq> [] \<and> 13 \<notin> set h"
    and "map (\<lambda>f. parse (snd f)) fs = map Some vs"
    and "messageBuffer (objects w r) = []"
  shows "fold (stdout_on_data parse r sid) chunks w = fold (receive_message sid) vs w
       \<and> messageBuffer (objects (fold (stdout_on_data parse r sid) chunks w) r) = []"
proof -
  have e: "fold (stdout_on_data parse r sid) chunks w = fold (deliver parse sid) (map snd fs) w"
    by (rule feed_stream [OF assms(1,2,3,5)])
  then have "messageBuffer (objects (fold (stdout_on_data parse r sid) chunks w) r) = []"
    by (simp add: fold_deliver_buffer assms(5))
  moreover from e have "fold (stdout_on_data parse r sid) chunks w = fold (receive_message sid) vs w"
    by (simp add: fold_deliver_parsed [OF assms(4)])
  ultimately show ?thesis by simp
qed


subsection \<open>The examples\<close>

lemma response_text_length: "length response_text = 35" "byteLength response_text = 35"
  by (simp_all add: response_text_def ascii_simps byteLength_def)

lemma typed_frame_no_match: "content_length_match typed_frame = None"
  by (simp add: typed_frame_def content_type_line_def response_text_def ascii_simps
        CRLFCRLF_def match_here_def content_length_prefix_def)

lemma typed_frame_ascii: "\<forall>b \<in> set typed_frame. b < 128"
  by (simp add: typed_frame_def content_type_line_def response_text_def ascii_simps
        CRLFCRLF_def)

lemma send_lsp_request_buffer:
  assumes "send_lsp_request stringify sid meth params w = Inr (r, k, h, w1)"
  shows "messageBuffer (objects w1 q) = messageBuffer (objects w q)"
  using assms
  by (auto simp add: send_lsp_request_def Let_def update_object_def stdin_write_def
           split: option.splits)

lemma one_pending_buffer: "messageBuffer (objects one_pending (Suc 0)) = []"
proof -
  have "messageBuffer (objects rust_main (Suc 0)) = []"
    by (simp add: rust_main_def start_lsp_server_def initial_main_state_def Let_def)
  with send_lsp_request_buffer [OF one_pending_sent, of "Suc 0"] show ?thesis by simp
qed

lemma response_received:
  "promises (receive_message rust_id (rpc_response (Suc 0) (JNum 7)) one_pending) 0
     = Some (Fulfilled (Some (JNum 7)))"
  using receive_response_pending(1) [OF one_pending_facts(1) one_pending_facts(2), of "JNum 7"]
  by (simp add: one_pending_facts)

text \<open>
  Claim C1, as stated, fails: one well-formed ASCII message whose header block has a
  \<open>Content-Type\<close> line after the \<open>Content-Length\<close> line, delivered in one chunk while
  request 1 is pending. Its payload is the response to request 1, and handing the decoded
  value to the handler would fulfil the promise with 7; the loop finds no match of its
  expression, emits nothing, and keeps the whole message in the buffer.
\<close>

theorem content_type_after_length_counterexample:
  "list_all (\<lambda>b. b < 128) typed_frame
   \<and> byteLength response_text = 35
   \<and> sample_parse response_text = Some (rpc_response 1 (JNum 7))
   \<and> messageBuffer (objects one_pending 1) = []
   \<and> promises (fold (receive_message rust_id) [rpc_response 1 (JNum 7)] one_pending) 0
        = Some (Fulfilled (Some (JNum 7)))
   \<and> promises (fold (stdout_on_data sample_parse 1 rust_id) [typed_frame] one_pending) 0
        = Some Pending
   \<and> fold (stdout_on_data sample_parse 1 rust_id) [typed_frame] one_pending
        = set_buffer 1 typed_frame one_pending"
proof -
  let ?w = "set_buffer (Suc 0) typed_frame one_pending"
  have "stdout_on_data sample_parse (Suc 0) rust_id typed_frame one_pending
          = process_messages sample_parse (Suc 0) rust_id ?w"
    using stdout_on_data_ascii [OF typed_frame_ascii one_pending_buffer] by simp
  also have "\<dots> = ?w"
    by (rule process_messages_no_match) (simp add: set_buffer_fields typed_frame_no_match)
  finally have e: "stdout_on_data sample_parse (Suc 0) rust_id typed_frame one_pending = ?w" .
  have p: "promises ?w 0 = Some Pending"
    by (simp add: set_buffer_fields one_pending_facts)
  have s: "sample_parse response_text = Some (rpc_response 1 (JNum 7))"
    by (simp add: sample_parse_def)
  show ?thesis
    using e p s typed_frame_ascii one_pending_buffer response_received response_text_length(2)
    by (simp add: list_all_iff)
qed

lemma concat_byte_by_byte: "concat (byte_by_byte data) = data"
  by (simp add: byte_by_byte_def)

lemma braces_length: "byteLength [123, 125] = 2"
  by (simp add: byteLength_def)

lemma two_frames_stream:
  "stream two_frames =
     ascii ''Content-Length: 2'' @ CRLFCRLF @ ascii ''{}'' @ content_type_line @ [13, 10]
       @ ascii ''Content-Length: 35'' @ CRLFCRLF @ response_text"
  by (simp add: two_frames_def stream_def framed_def frame_message_def response_text_length
        braces_length content_length_prefix_def decimal.simps ascii_simps)

lemma two_frames_ascii: "\<forall>b \<in> set (stream two_frames). b < 128"
  unfolding two_frames_stream
  by (simp add: content_type_line_def response_text_def ascii_simps CRLFCRLF_def)

lemma two_frames_lines:
  "\<forall>f \<in> set two_frames. \<forall>h \<in> set (fst f). h \<noteq> [] \<and> 13 \<notin> set h"
  by (simp add: two_frames_def content_type_line_def ascii_simps)

lemma two_frames_parse:
  "map (\<lambda>f. sample_parse (snd f)) two_frames = map Some [JObj [], rpc_response 1 (JNum 7)]"
  by (simp add: two_frames_def sample_parse_def response_text_def ascii_simps)

theorem framed_stream_decodes_in_order_witness:
  "concat (byte_by_byte (stream two_frames)) = stream two_frames
   \<and> list_all (\<lambda>b. b < 128) (concat (byte_by_byte (stream two_frames)))
   \<and> list_all (\<lambda>f. list_all (\<lambda>h. h \<noteq> [] \<and> 13 \<notin> set h) (fst f)) two_frames
   \<and> map (\<lambda>f. sample_parse (snd f)) two_frames = map Some [JObj [], rpc_response 1 (JNum 7)]
   \<and> messageBuffer (objects one_pending 1) = []
   \<and> fold (stdout_on_data sample_parse 1 rust_id) (byte_by_byte (stream two_frames)) one_pending
        = fold (receive_message rust_id) [JObj [], rpc_response 1 (JNum 7)] one_pending
   \<and> promises (fold (stdout_on_data sample_parse 1 rust_id) (byte_by_byte (stream two_frames))
                  one_pending) 0
        = Some (Fulfilled (Some (JNum 7)))"
proof -
  let ?chunks = "byte_by_byte (stream two_frames)"
  have h1: "concat ?chunks = stream two_frames" by (rule concat_byte_by_byte)
  have h2: "\<forall>b \<in> set (concat ?chunks). b < 128"
    using two_frames_ascii by (simp add: concat_byte_by_byte)
  note t = framed_stream_decodes_in_order
             [OF h1 h2 two_frames_lines two_frames_parse one_pending_buffer, of rust_id]
  have "receive_message rust_id (JObj []) one_pending = one_pending"
    using one_pending_facts(1)
    by (simp add: receive_message_def handleLSPMessage_def handle_response_def
          handle_notification_def ascii_simps)
  with t response_received
  have "promises (fold (stdout_on_data sample_parse (Suc 0) rust_id) ?chunks one_pending) 0
          = Some (Fulfilled (Some (JNum 7)))"
    by simp
  with t h1 h2 two_frames_lines two_frames_parse one_pending_buffer show ?thesis
    by (simp add: list_all_iff)
qed






lemma receive_response_console:
  "consoleErrors (receive_message sid (rpc_response k v) w) = consoleErrors w"
  by (simp add: receive_message_def handleLSPMessage_def handle_response_def
        handle_notification_def rpc_response_def ascii_simps Let_def update_object_def
        resolve_def reject_def settle_def split: option.splits)




lemma response_frame:
  "frame_message response_text = ascii ''Content-Length: 35'' @ CRLFCRLF @ response_text"
  by (simp add: frame_message_def response_text_length content_length_prefix_def decimal.simps
        ascii_simps)













subsection \<open>Payloads with characters beyond ASCII\<close>

text \<open>
  For ASCII content the senders' frame comes back through the \<open>data\<close> handler as the
  content itself. With a character that takes more than one byte it does not.
\<close>

lemma frame_message_ascii:
  assumes "\<forall>u \<in> set content. u < 128"
  shows "\<forall>u \<in> set (frame_message content). u < 128"
proof -
  have "\<forall>u \<in> set content_length_prefix. u < 128"
    by (simp add: content_length_prefix_def ascii_def)
  moreover have "\<forall>u \<in> set (decimal n). u < 128" for n
    using decimal_digits [of n] by (auto simp: is_digit_def)
  ultimately show ?thesis
    using assms by (auto simp: frame_message_def CRLFCRLF_def)
qed

lemma ascii_round_trip:
  assumes ascii: "\<forall>u \<in> set content. u < 128"
    and empty: "messageBuffer (objects w r) = []"
  shows "stdout_on_data parse r sid (utf8_encode (frame_message content)) w
           = deliver parse sid content w"
proof -
  let ?bytes = "utf8_encode (frame_message content)"
  have b: "?bytes = frame_message content"
    by (rule utf8_encode_ascii [OF frame_message_ascii [OF ascii]])
  have s: "stream [([], content)] = frame_message content"
    by (simp add: stream_def framed_def)
  have "fold (stdout_on_data parse r sid) [?bytes] w
          = fold (deliver parse sid) (map snd [([] :: jsstring list, content)]) w"
  proof (rule feed_stream [where chunks = "[?bytes]" and fs = "[([], content)]"])
    show "concat [?bytes] = stream [([], content)]" by (simp add: b s)
    show "\<forall>b \<in> set (concat [?bytes]). b < 128"
      using frame_message_ascii [OF ascii] by (simp add: b)
    show "\<forall>f \<in> set [([], content)]. \<forall>h \<in> set (fst f). h \<noteq> [] \<and> 13 \<notin> set h"
      by simp
    show "messageBuffer (objects w r) = []" by (rule empty)
  qed
  then show ?thesis by simp
qed

lemma accented_lengths:
  "length accented_response = 37" "byteLength accented_response = 38"
  by (simp_all add: accented_response_def ascii_simps byteLength_def)

lemma accented_frame:
  "frame_message accented_response = ascii ''Content-Length: 38'' @ CRLFCRLF @ accented_response"
  by (simp add: frame_message_def accented_lengths content_length_prefix_def decimal.simps ascii_simps)

lemma accented_roundtrip_bytes:
  "toString (utf8_encode (frame_message accented_response)) = frame_message accented_response"
  unfolding accented_frame
  by (simp add: accented_response_def ascii_simps CRLFCRLF_def toString_def
        utf8_step_def utf8_lead_def utf8_init_def utf16_units_def)

lemma accented_match:
  "content_length_match (frame_message accented_response) = Some 38"
  unfolding accented_frame
  by (simp add: accented_response_def ascii_simps CRLFCRLF_def match_here_def
        content_length_prefix_def is_digit_def parseInt_digits_def)

lemma accented_index:
  "indexOf (frame_message accented_response) CRLFCRLF = 18"
  unfolding accented_frame
  by (simp add: accented_response_def ascii_simps CRLFCRLF_def indexOf.simps)

lemma accented_frame_length: "length (frame_message accented_response) = 59"
  unfolding accented_frame
  by (simp add: accented_response_def ascii_simps CRLFCRLF_def)

lemma accented_broken_lengths:
  "length accented_broken_text = 6" "byteLength accented_broken_text = 7"
  by (simp_all add: accented_broken_text_def ascii_simps byteLength_def)

lemma accented_broken_frame:
  "frame_message accented_broken_text
     = ascii ''Content-Length: 7'' @ CRLFCRLF @ accented_broken_text"
  by (simp add: frame_message_def accented_broken_lengths content_length_prefix_def
        decimal.simps ascii_simps)

lemma accented_broken_then_response:
  "frame_message accented_broken_text @ frame_message response_text =
     ascii ''Content-Length: 7'' @ CRLFCRLF @ accented_broken_text
       @ ascii ''Content-Length: 35'' @ CRLFCRLF @ response_text"
  by (simp add: accented_broken_frame response_frame)

lemma accented_broken_bytes:
  "toString (utf8_encode (frame_message accented_broken_text)
             @ utf8_encode (frame_message response_text))
     = frame_message accented_broken_text @ frame_message response_text"
  unfolding accented_broken_frame response_frame
  by (simp add: accented_broken_text_def response_text_def ascii_simps CRLFCRLF_def
        toString_def utf8_step_def utf8_lead_def utf8_init_def utf16_units_def)

lemma accented_broken_match:
  "content_length_match (frame_message accented_broken_text @ frame_message response_text)
     = Some 7"
  unfolding accented_broken_then_response
  by (simp add: accented_broken_text_def ascii_simps CRLFCRLF_def match_here_def
        content_length_prefix_def is_digit_def parseInt_digits_def)

lemma accented_broken_index:
  "indexOf (frame_message accented_broken_text @ frame_message response_text) CRLFCRLF = 17"
  unfolding accented_broken_then_response
  by (simp add: accented_broken_text_def ascii_simps CRLFCRLF_def indexOf.simps)

lemma accented_broken_length:
  "length (frame_message accented_broken_text @ frame_message response_text) = 84"
  unfolding accented_broken_then_response
  by (simp add: accented_broken_text_def response_text_def ascii_simps CRLFCRLF_def)

lemma accented_broken_content:
  "substring (frame_message accented_broken_text @ frame_message response_text) 21 28
     = accented_broken_text @ ascii ''C''"
  unfolding accented_broken_then_response
  by (simp add: substring_def accented_broken_text_def response_text_def ascii_simps
        CRLFCRLF_def)

lemma accented_broken_rest:
  "substring_from (frame_message accented_broken_text @ frame_message response_text) 28
     = substring_from (frame_message response_text) 1"
proof -
  have "substring_from (frame_message accented_broken_text @ frame_message response_text) 28
          = drop 1 (ascii ''Content-Length: 35'' @ CRLFCRLF @ response_text)"
    unfolding accented_broken_then_response
    by (simp add: substring_from_def accented_broken_text_def ascii_simps CRLFCRLF_def)
  also have "\<dots> = substring_from (frame_message response_text) 1"
    by (simp only: response_frame substring_from_def)
  finally show ?thesis .
qed

lemma accented_broken_no_parse: "sample_parse (accented_broken_text @ ascii ''C'') = None"
  by (simp add: sample_parse_def accented_broken_text_def response_text_def ascii_simps)

lemma beheaded_frame_no_match:
  "content_length_match (substring_from (frame_message response_text) (Suc 0)) = None"
  unfolding response_frame
  by (simp add: substring_from_def response_text_def ascii_simps CRLFCRLF_def
        match_here_def content_length_prefix_def)

text \<open>
  The same lengths make a malformed payload take the next message with it. The text
  \<open>{oops\<close> followed by U+00E9 has 6 characters and 7 bytes, so its frame announces 7.
  With the response to request 1 behind it in the same chunk, the loop cuts 7 characters:
  the payload and the \<open>C\<close> that starts the header of the response. The cut text is
  logged as a parse error, and what is left of the response has no header the expression
  could match, so the promise of request 1 stays pending.
\<close>

lemma malformed_multibyte_payload_swallows_next_message:
  "length accented_broken_text = 6 \<and> byteLength accented_broken_text = 7
   \<and> messageBuffer (objects one_pending 1) = []
   \<and> substring (frame_message accented_broken_text @ frame_message response_text) 21 28
        = accented_broken_text @ ascii ''C''
   \<and> stdout_on_data sample_parse 1 rust_id
         (utf8_encode (frame_message accented_broken_text)
          @ utf8_encode (frame_message response_text)) one_pending
        = console_error (ErrorParsingMessage SyntaxError)
            (set_buffer 1 (substring_from (frame_message response_text) 1) one_pending)
   \<and> promises (stdout_on_data sample_parse 1 rust_id
                   (utf8_encode (frame_message accented_broken_text)
                    @ utf8_encode (frame_message response_text)) one_pending) 0
        = Some Pending"
proof -
  let ?e = "ErrorParsingMessage SyntaxError"
  let ?data = "utf8_encode (frame_message accented_broken_text)
               @ utf8_encode (frame_message response_text)"
  let ?buf = "frame_message accented_broken_text @ frame_message response_text"
  let ?w = "set_buffer (Suc 0) ?buf one_pending"
  let ?w' = "console_error ?e
               (set_buffer (Suc 0) (substring_from (frame_message response_text) 1) one_pending)"
  have u: "update_object (Suc 0) (\<lambda>sd. sd\<lparr>messageBuffer := messageBuffer sd @ toString ?data\<rparr>)
             one_pending = ?w"
    by (simp only: accented_broken_bytes)
       (simp add: set_buffer_def update_object_def one_pending_buffer)
  have b: "messageBuffer (objects ?w (Suc 0)) = ?buf"
    by (simp add: set_buffer_fields)
  have j: "nat (indexOf ?buf CRLFCRLF + 4) = 21"
    by (simp add: accented_broken_index)
  have m: "content_length_match (messageBuffer (objects ?w (Suc 0))) = Some 7"
    by (simp only: b accented_broken_match)
  have l: "nat (indexOf (messageBuffer (objects ?w (Suc 0))) CRLFCRLF + 4) + 7
             \<le> length (messageBuffer (objects ?w (Suc 0)))"
    unfolding b accented_broken_index accented_broken_length by simp
  have "stdout_on_data sample_parse (Suc 0) rust_id ?data one_pending
          = process_messages sample_parse (Suc 0) rust_id ?w"
    by (simp only: stdout_on_data_def u)
  also have "\<dots> = process_messages sample_parse (Suc 0) rust_id
                     (deliver sample_parse rust_id (substring ?buf 21 28)
                        (set_buffer (Suc 0) (substring_from ?buf 28) ?w))"
    using process_messages_extract [OF m l, of sample_parse rust_id]
    unfolding b j by simp
  also have "\<dots> = process_messages sample_parse (Suc 0) rust_id ?w'"
    by (simp only: accented_broken_content accented_broken_rest set_buffer_twice)
       (simp add: deliver_def accented_broken_no_parse)
  also have "\<dots> = ?w'"
    by (rule process_messages_no_match)
       (simp add: console_error_def set_buffer_fields beheaded_frame_no_match)
  finally have both: "stdout_on_data sample_parse (Suc 0) rust_id ?data one_pending = ?w'" .
  have p: "promises ?w' 0 = Some Pending"
    by (simp add: console_error_def set_buffer_fields one_pending_facts)
  show ?thesis
    using accented_broken_lengths one_pending_buffer accented_broken_content both p
    by simp
qed

text \<open>
  Claim C5 fails on the code. The serialised response \<open>{"jsonrpc":"2.0","id":1,"result":"\<dots>"}\<close>
  whose result is the one character U+00E9 has 37 characters and 38 bytes, so its frame
  announces 38. Fed back as one chunk into a server with an empty buffer, the loop
  compares the announced 38 with the 37 characters it holds after the header, decides
  that the message is incomplete, and delivers nothing, whatever \<open>JSON.parse\<close> is: the
  whole frame stays in the buffer.
\<close>

theorem multibyte_message_is_not_decoded:
  "messageBuffer (objects rust_main 1) = []
   \<and> byteLength accented_response = 38 \<and> length accented_response = 37
   \<and> stdout_on_data parse 1 rust_id (utf8_encode (frame_message accented_response)) rust_main
       = set_buffer 1 (frame_message accented_response) rust_main"
proof -
  have b: "messageBuffer (objects rust_main (Suc 0)) = []"
    by (simp add: rust_main_def start_lsp_server_def initial_main_state_def Let_def)
  let ?w = "set_buffer (Suc 0) (frame_message accented_response) rust_main"
  have w: "update_object (Suc 0) (\<lambda>sd. sd\<lparr>messageBuffer := messageBuffer sd @
              toString (utf8_encode (frame_message accented_response))\<rparr>) rust_main = ?w"
    by (simp add: accented_roundtrip_bytes set_buffer_def update_object_def b)
  have m: "messageBuffer (objects ?w (Suc 0)) = frame_message accented_response"
    by (simp add: set_buffer_def update_object_def)
  have "process_messages parse (Suc 0) rust_id ?w = ?w"
    by (rule process_messages_incomplete [where n = 38])
       (simp_all add: m accented_match accented_index accented_frame_length)
  then have "stdout_on_data parse (Suc 0) rust_id (utf8_encode (frame_message accented_response))
               rust_main = ?w"
    by (simp add: stdout_on_data_def w)
  with b show ?thesis
    by (simp add: accented_lengths)
qed

end
